theory Spec2Isabelle
  imports Complex_Main
begin

section \<open>Strings and character classes\<close>

text \<open>
  A Python \<open>str\<close> is a sequence of code points.  The model takes \<^typ>\<open>string\<close>, a list of
  8-bit characters, and reads each \<^typ>\<open>char\<close> as the code point of the same number, so the
  modelled texts are exactly the Python strings over U+0000 .. U+00FF.  On that range the
  character classes below are the ones of CPython 3: \<open>\s\<close> and \<open>str.strip\<close> use
  \<open>str.isspace\<close>, \<open>\d\<close> is the category Nd (only \<open>0\<close> .. \<open>9\<close> below 256),
  \<open>str.isdigit\<close> also accepts the superscripts U+00B2, U+00B3, U+00B9, and \<open>\w\<close> is
  \<open>str.isalnum\<close> or underscore.
\<close>

definition cp :: "char \<Rightarrow> nat" where
  "cp c = of_char c"

definition is_AZ :: "char \<Rightarrow> bool" where
  "is_AZ c = (65 \<le> cp c \<and> cp c \<le> 90)"

definition is_az :: "char \<Rightarrow> bool" where
  "is_az c = (97 \<le> cp c \<and> cp c \<le> 122)"

definition is_letter :: "char \<Rightarrow> bool" where
  \<comment> \<open>the class \<open>[A-Za-z]\<close>\<close>
  "is_letter c = (is_AZ c \<or> is_az c)"

definition is_dec :: "char \<Rightarrow> bool" where
  \<comment> \<open>the classes \<open>\d\<close> and \<open>[0-9]\<close>, which coincide below U+0100\<close>
  "is_dec c = (48 \<le> cp c \<and> cp c \<le> 57)"

definition is_space :: "char \<Rightarrow> bool" where
  \<comment> \<open>\<open>\s\<close> and \<open>str.isspace\<close>\<close>
  "is_space c = ((9 \<le> cp c \<and> cp c \<le> 13) \<or> (28 \<le> cp c \<and> cp c \<le> 32)
                 \<or> cp c = 133 \<or> cp c = 160)"

definition isdigit_char :: "char \<Rightarrow> bool" where
  \<comment> \<open>\<open>str.isdigit\<close> on one character\<close>
  "isdigit_char c = (is_dec c \<or> cp c = 178 \<or> cp c = 179 \<or> cp c = 185)"

definition is_word :: "char \<Rightarrow> bool" where
  \<comment> \<open>the class \<open>\w\<close>\<close>
  "is_word c = (is_letter c \<or> is_dec c \<or> cp c = 95
                \<or> cp c = 170 \<or> cp c = 178 \<or> cp c = 179 \<or> cp c = 181 \<or> cp c = 185
                \<or> cp c = 186 \<or> (188 \<le> cp c \<and> cp c \<le> 190)
                \<or> (192 \<le> cp c \<and> cp c \<le> 214) \<or> (216 \<le> cp c \<and> cp c \<le> 246)
                \<or> 248 \<le> cp c)"

definition has_lower_case :: "char \<Rightarrow> bool" where
  \<comment> \<open>the code points that \<open>str.lower\<close> changes\<close>
  "has_lower_case c = (is_AZ c \<or> (192 \<le> cp c \<and> cp c \<le> 222 \<and> cp c \<noteq> 215))"

definition has_upper_case :: "char \<Rightarrow> bool" where
  \<comment> \<open>the code points that \<open>str.upper\<close> moves 32 down\<close>
  "has_upper_case c = (is_az c \<or> (224 \<le> cp c \<and> cp c \<le> 254 \<and> cp c \<noteq> 247))"

definition lower_char :: "char \<Rightarrow> char" where
  \<comment> \<open>code point plus 32: bit 5 is clear on every character with a lower case\<close>
  "lower_char c = (if has_lower_case c
     then (case c of Char b0 b1 b2 b3 b4 b5 b6 b7 \<Rightarrow> Char b0 b1 b2 b3 b4 True b6 b7)
     else c)"

definition lower :: "string \<Rightarrow> string" where
  "lower s = map lower_char s"

definition upper_char :: "char \<Rightarrow> string" where
  \<comment> \<open>code point minus 32; U+00DF becomes \<open>SS\<close>.  U+00B5 and U+00FF have their upper case
      outside the modelled range (U+039C, U+0178); they are kept, which no test of the
      matchers can tell apart: an upper-cased token is only matched against patterns made of
      \<open>[A-Z]\<close>, \<open>[0-9]\<close>, \<open>\d\<close>, \<open>\s\<close> and \<open>[LRC]\<close>, and is emitted only after such a match.\<close>
  "upper_char c = (if has_upper_case c
     then [case c of Char b0 b1 b2 b3 b4 b5 b6 b7 \<Rightarrow> Char b0 b1 b2 b3 b4 False b6 b7]
     else if cp c = 223 then ''SS''
     else [c])"

definition upper :: "string \<Rightarrow> string" where
  "upper s = concat (map upper_char s)"

definition isdigit :: "string \<Rightarrow> bool" where
  \<comment> \<open>\<open>str.isdigit\<close>: non-empty and every character a digit\<close>
  "isdigit s = (s \<noteq> [] \<and> list_all isdigit_char s)"

definition strip :: "string \<Rightarrow> string" where
  "strip s = rev (dropWhile is_space (rev (dropWhile is_space s)))"

fun join :: "string \<Rightarrow> string list \<Rightarrow> string" where
  "join sep [] = []"
| "join sep [x] = x"
| "join sep (x # y # ys) = x @ sep @ join sep (y # ys)"

fun startswith :: "string \<Rightarrow> string \<Rightarrow> bool" where
  "startswith s [] = True"
| "startswith [] (p # ps) = False"
| "startswith (c # cs) (p # ps) = (c = p \<and> startswith cs ps)"

fun contains :: "string \<Rightarrow> string \<Rightarrow> bool" where
  \<comment> \<open>\<open>sub in s\<close>\<close>
  "contains [] sub = (sub = [])"
| "contains (c # cs) sub = (startswith (c # cs) sub \<or> contains cs sub)"


section \<open>Tokenizer\<close>

text \<open>
  \<open>_TOKEN_RE = [A-Za-z]+ | \d+(?:\.\d+)? | [^\sA-Za-z\d]+\<close>.  The three alternatives
  start with disjoint classes, and each greedy run succeeds at its full length, so the match at
  a position is decided by the first character; a white-space character starts no match and
  is skipped by \<open>findall\<close>.
\<close>

definition is_symbol :: "char \<Rightarrow> bool" where
  \<comment> \<open>the class \<open>[^\sA-Za-z\d]\<close>\<close>
  "is_symbol c = (\<not> is_space c \<and> \<not> is_letter c \<and> \<not> is_dec c)"

definition number_match :: "string \<Rightarrow> string \<times> string" where
  \<comment> \<open>\<open>\d+(?:\.\d+)?\<close> at the start of a text that begins with a digit: the match and the rest\<close>
  "number_match s =
     (let a = takeWhile is_dec s; r = dropWhile is_dec s in
      case r of
        p # q # r' \<Rightarrow>
          if p = CHR ''.'' \<and> is_dec q
          then (a @ [p] @ takeWhile is_dec (q # r'), dropWhile is_dec (q # r'))
          else (a, r)
      | _ \<Rightarrow> (a, r))"

lemma number_match_rest_le:
  "length (snd (number_match s)) \<le> length (dropWhile is_dec s)"
proof -
  define r where "r = dropWhile is_dec s"
  have drop_le: "\<And>xs. length (dropWhile is_dec xs) \<le> length xs"
    by (rule length_dropWhile_le)
  have "length (snd (case r of
            p # q # r' \<Rightarrow>
              if p = CHR ''.'' \<and> is_dec q
              then (takeWhile is_dec s @ [p] @ takeWhile is_dec (q # r'), dropWhile is_dec (q # r'))
              else (takeWhile is_dec s, r)
          | _ \<Rightarrow> (takeWhile is_dec s, r))) \<le> length r"
  proof (cases r)
    case Nil
    then show ?thesis by simp
  next
    case (Cons p t)
    show ?thesis
    proof (cases t)
      case Nil
      then show ?thesis using Cons by simp
    next
      case (Cons q r')
      have "length (dropWhile is_dec r') \<le> length r'" by (rule drop_le)
      then show ?thesis using \<open>r = p # t\<close> Cons by auto
    qed
  qed
  then show ?thesis unfolding number_match_def Let_def r_def .
qed

lemma number_match_shorter:
  assumes "is_dec c"
  shows "length (snd (number_match (c # cs))) < Suc (length cs)"
proof -
  have "length (dropWhile is_dec (c # cs)) \<le> length cs"
    using assms by (simp add: length_dropWhile_le)
  then show ?thesis using number_match_rest_le [of "c # cs"] by arith
qed

function findall_token :: "string \<Rightarrow> string list" where
  "findall_token [] = []"
| "findall_token (c # cs) =
     (if is_letter c then
        takeWhile is_letter (c # cs) # findall_token (dropWhile is_letter (c # cs))
      else if is_dec c then
        fst (number_match (c # cs)) # findall_token (snd (number_match (c # cs)))
      else if is_symbol c then
        takeWhile is_symbol (c # cs) # findall_token (dropWhile is_symbol (c # cs))
      else findall_token cs)"
  by pat_completeness auto
termination
proof (relation "measure length")
  show "wf (measure length)" by simp
next
  fix c :: char and cs :: string
  assume "is_letter c"
  then show "(dropWhile is_letter (c # cs), c # cs) \<in> measure length"
    by (simp add: less_Suc_eq_le length_dropWhile_le)
next
  fix c :: char and cs :: string
  assume "\<not> is_letter c" "is_dec c"
  then show "(snd (number_match (c # cs)), c # cs) \<in> measure length"
    using number_match_shorter [of c cs] by simp
next
  fix c :: char and cs :: string
  assume "\<not> is_letter c" "\<not> is_dec c" "is_symbol c"
  then show "(dropWhile is_symbol (c # cs), c # cs) \<in> measure length"
    by (simp add: less_Suc_eq_le length_dropWhile_le)
next
  fix c :: char and cs :: string
  show "(cs, c # cs) \<in> measure length" by simp
qed

definition letters_fullmatch :: "string \<Rightarrow> bool" where
  \<comment> \<open>\<open>re.fullmatch("[A-Za-z]+", tok)\<close>\<close>
  "letters_fullmatch tok = (tok \<noteq> [] \<and> list_all is_letter tok)"

definition punct_fullmatch :: "string \<Rightarrow> bool" where
  \<comment> \<open>\<open>re.fullmatch("[^\w\.]+", t)\<close>\<close>
  "punct_fullmatch t = (t \<noteq> [] \<and> list_all (\<lambda>c. \<not> is_word c \<and> c \<noteq> CHR ''.'') t)"

definition sub_separators :: "string \<Rightarrow> string" where
  \<comment> \<open>\<open>re.sub("[,\;:\(\)\[\]\{\}]", " ", s)\<close>\<close>
  "sub_separators s = map (\<lambda>c. if c \<in> set '',;:()[]{}'' then CHR '' '' else c) s"

function sub_spaces :: "string \<Rightarrow> string" where
  \<comment> \<open>\<open>re.sub("\s+", " ", s)\<close>: every maximal white-space run becomes one space\<close>
  "sub_spaces [] = []"
| "sub_spaces (c # cs) =
     (if is_space c then CHR '' '' # sub_spaces (dropWhile is_space cs)
      else c # sub_spaces cs)"
  by pat_completeness auto
termination
  by (relation "measure length") (auto simp: less_Suc_eq_le length_dropWhile_le)

definition normalize_text :: "string \<Rightarrow> string" where
  \<comment> \<open>The two \<open>replace\<close> calls rewrite U+2013 and U+2014, which are outside the modelled
      range: on every modelled text they change nothing.\<close>
  "normalize_text text = strip (sub_spaces (sub_separators (strip text)))"

definition tokenize :: "string \<Rightarrow> string list" where
  "tokenize text =
     filter (\<lambda>t. \<not> punct_fullmatch t)
       (map (\<lambda>tok. if letters_fullmatch tok then lower tok else tok) (findall_token text))"


section \<open>Entities and match results\<close>

datatype EntityType =
  CALLSIGN | RUNWAY | TAXIWAY | HEADING | FLIGHT_LEVEL | FREQUENCY | QNH | VALUE

datatype RenderMode = CODE | SPOKEN

text \<open>
  The confidences are Python floats (and the integer 1).  The code only stores and compares
  them; on finite floats the comparison is the order of the numbers they denote, so a
  confidence is modelled as a real number.
\<close>

record AviationEntity =
  etype :: EntityType
  raw :: string
  code :: string
  spoken :: string
  econfidence :: real
  enote :: "string option"

definition render :: "AviationEntity \<Rightarrow> RenderMode \<Rightarrow> string" where
  "render e mode = (if mode = SPOKEN then spoken e else code e)"

record MatchResult =
  entity :: AviationEntity
  step :: int
  confidence :: real

text \<open>
  What a call can raise: the built-in exceptions the matchers' operations can produce, and
  any other instance of \<open>Exception\<close> a caller-supplied matcher may raise.
\<close>

datatype exn = ValueError | KeyError | IndexError | Exception string

text \<open>
  A matcher is its \<open>match(tokens, index)\<close> method: it returns a match, \<open>None\<close>, or raises.
  The driver calls it with \<open>0 \<le> index < len(tokens)\<close>, as the interface documents, so the
  index is a natural number.
\<close>

type_synonym FSM = "string list \<Rightarrow> nat \<Rightarrow> exn + MatchResult option"

definition mk_match ::
  "EntityType \<Rightarrow> string \<Rightarrow> string \<Rightarrow> string \<Rightarrow> real \<Rightarrow> int \<Rightarrow> MatchResult" where
  \<comment> \<open>\<open>MatchResult(entity=AviationEntity(type, raw, code, spoken, confidence), step, confidence)\<close>\<close>
  "mk_match ty r c s conf n =
     \<lparr>entity = \<lparr>etype = ty, raw = r, code = c, spoken = s, econfidence = conf, enote = None\<rparr>,
      step = n, confidence = conf\<rparr>"

definition slice :: "'a list \<Rightarrow> nat \<Rightarrow> nat \<Rightarrow> 'a list" where
  \<comment> \<open>\<open>xs[i:j]\<close> for non-negative bounds; a bound beyond the end is clamped\<close>
  "slice xs i j = take (j - i) (drop i xs)"


section \<open>Dictionaries and number helpers\<close>

definition ICAO_ALPHABET :: "(string \<times> string) list" where
  "ICAO_ALPHABET =
     [(''alpha'', ''A''), (''bravo'', ''B''), (''charlie'', ''C''), (''delta'', ''D''),
      (''echo'', ''E''), (''foxtrot'', ''F''), (''golf'', ''G''), (''hotel'', ''H''),
      (''india'', ''I''), (''juliett'', ''J''), (''kilo'', ''K''), (''lima'', ''L''),
      (''mike'', ''M''), (''november'', ''N''), (''oscar'', ''O''), (''papa'', ''P''),
      (''quebec'', ''Q''), (''romeo'', ''R''), (''sierra'', ''S''), (''tango'', ''T''),
      (''uniform'', ''U''), (''victor'', ''V''), (''whiskey'', ''W''), (''xray'', ''X''),
      (''x-ray'', ''X''), (''yankee'', ''Y''), (''zulu'', ''Z'')]"

definition ICAO_REVERSE :: "(string \<times> string) list" where
  \<comment> \<open>\<open>{v: k for k, v in ICAO_ALPHABET.items()}\<close>: a later item overwrites an earlier one with
      the same key, so a lookup finds the last item; the list is reversed for \<open>map_of\<close>.\<close>
  "ICAO_REVERSE = rev (map (\<lambda>(k, v). (v, k)) ICAO_ALPHABET)"

definition NUMBER_WORDS :: "(string \<times> nat) list" where
  "NUMBER_WORDS =
     [(''zero'', 0), (''oh'', 0), (''one'', 1), (''two'', 2), (''three'', 3), (''tree'', 3),
      (''four'', 4), (''five'', 5), (''fife'', 5), (''six'', 6), (''seven'', 7),
      (''eight'', 8), (''ait'', 8), (''nine'', 9), (''niner'', 9)]"

definition NUMBER_REVERSE :: "(nat \<times> string) list" where
  "NUMBER_REVERSE =
     [(0, ''zero''), (1, ''one''), (2, ''two''), (3, ''three''), (4, ''four''),
      (5, ''five''), (6, ''six''), (7, ''seven''), (8, ''eight''), (9, ''nine'')]"

definition DECIMAL_WORDS :: "string list" where
  "DECIMAL_WORDS = [''decimal'', ''point'', ''dot'']"

definition AIRLINE_ICAO :: "(string \<times> string) list" where
  "AIRLINE_ICAO =
     [(''CSN'', ''china southern''), (''CCA'', ''air china''), (''CES'', ''china eastern'')]"

definition subscript :: "('k \<times> 'v) list \<Rightarrow> 'k \<Rightarrow> exn + 'v" where
  \<comment> \<open>\<open>d[k]\<close>\<close>
  "subscript d k = (case map_of d k of None \<Rightarrow> Inl KeyError | Some v \<Rightarrow> Inr v)"

definition dict_get :: "('k \<times> 'v) list \<Rightarrow> 'k \<Rightarrow> 'v \<Rightarrow> 'v" where
  \<comment> \<open>\<open>d.get(k, default)\<close>\<close>
  "dict_get d k dflt = (case map_of d k of None \<Rightarrow> dflt | Some v \<Rightarrow> v)"

definition str_digit :: "nat \<Rightarrow> string" where
  \<comment> \<open>\<open>str(n)\<close> for the values 0 .. 9 that \<open>NUMBER_WORDS\<close> holds\<close>
  "str_digit n = [''0123456789'' ! n]"

definition int_char :: "char \<Rightarrow> exn + nat" where
  \<comment> \<open>\<open>int(ch)\<close> on one character: only the decimal digits convert; the superscript digits
      that \<open>str.isdigit\<close> accepts raise \<open>ValueError\<close>\<close>
  "int_char ch = (if is_dec ch then Inr (cp ch - 48) else Inl ValueError)"

fun sequence :: "(exn + 'a) list \<Rightarrow> exn + 'a list" where
  \<comment> \<open>the items of a generator, evaluated in order until one raises\<close>
  "sequence [] = Inr []"
| "sequence (x # xs) =
     (case x of
        Inl e \<Rightarrow> Inl e
      | Inr v \<Rightarrow> (case sequence xs of Inl e \<Rightarrow> Inl e | Inr vs \<Rightarrow> Inr (v # vs)))"

definition token_to_digit :: "string \<Rightarrow> string option" where
  "token_to_digit token =
     (let t = lower token in
      if isdigit t \<and> length t = 1 then Some t
      else (case map_of NUMBER_WORDS t of Some n \<Rightarrow> Some (str_digit n) | None \<Rightarrow> None))"

definition digits_to_spoken :: "string \<Rightarrow> exn + string" where
  "digits_to_spoken digits =
     (let only = filter isdigit_char digits in
      if only = [] then Inr []
      else (case sequence (map (\<lambda>ch. case int_char ch of
                                        Inl e \<Rightarrow> Inl e
                                      | Inr n \<Rightarrow> subscript NUMBER_REVERSE n) only) of
              Inl e \<Rightarrow> Inl e
            | Inr ws \<Rightarrow> Inr (join '' '' ws)))"

definition num_str_to_spoken :: "string \<Rightarrow> exn + string" where
  "num_str_to_spoken num =
     (if CHR ''.'' \<in> set num then
        (let a = takeWhile (\<lambda>c. c \<noteq> CHR ''.'') num;
             b = tl (dropWhile (\<lambda>c. c \<noteq> CHR ''.'') num) in
         case digits_to_spoken a of
           Inl e \<Rightarrow> Inl e
         | Inr sa \<Rightarrow>
             (case digits_to_spoken b of
                Inl e \<Rightarrow> Inl e
              | Inr sb \<Rightarrow> Inr (sa @ '' decimal '' @ sb)))
      else digits_to_spoken num)"

fun collect_digits :: "nat \<Rightarrow> string list \<Rightarrow> string list" where
  \<comment> \<open>the loop \<open>while j < len(tokens) and len(digs) < n\<close> over the tokens from \<open>j\<close> on: the
      digits read before the first token that is no digit, \<open>n\<close> at most; \<open>j\<close> advances by
      their number\<close>
  "collect_digits n [] = []"
| "collect_digits n (t # ts) =
     (if n = 0 then []
      else (case token_to_digit t of
              None \<Rightarrow> []
            | Some d \<Rightarrow> d # collect_digits (n - 1) ts))"

fun collect_all_digits :: "string list \<Rightarrow> string list" where
  \<comment> \<open>the same loop with no bound on the number of digits\<close>
  "collect_all_digits [] = []"
| "collect_all_digits (t # ts) =
     (case token_to_digit t of
        None \<Rightarrow> []
      | Some d \<Rightarrow> d # collect_all_digits ts)"

definition zfill :: "nat \<Rightarrow> string \<Rightarrow> string" where
  \<comment> \<open>\<open>s.zfill(w)\<close>: zeros on the left, after a leading sign\<close>
  "zfill w s =
     (if w \<le> length s then s
      else (case s of
              c # cs \<Rightarrow>
                if c = CHR ''+'' \<or> c = CHR ''-''
                then c # replicate (w - length s) (CHR ''0'') @ cs
                else replicate (w - length s) (CHR ''0'') @ s
            | [] \<Rightarrow> replicate w (CHR ''0'')))"


section \<open>The patterns of the matchers\<close>

text \<open>
  Each compiled pattern is a recogniser.  With \<open>fullmatch\<close> the whole token is matched.
  With \<open>match\<close> (call sign, flight level) the final \<open>$\<close> also accepts the position
  before one trailing newline.
\<close>

definition dollar :: "string \<Rightarrow> bool" where
  \<comment> \<open>\<open>$\<close> at the start of what is left: the end, or a newline that ends the text\<close>
  "dollar r = (r = [] \<or> r = [CHR 0x0A])"

definition QNH_RE :: "string \<Rightarrow> bool" where
  \<comment> \<open>\<open>^\d{4}$\<close>, fullmatch\<close>
  "QNH_RE t = (length t = 4 \<and> list_all is_dec t)"

definition RW_CODE_RE :: "string \<Rightarrow> bool" where
  \<comment> \<open>\<open>^\d{2}([LRC])?$\<close>, fullmatch\<close>
  "RW_CODE_RE t =
     (list_all is_dec (take 2 t)
      \<and> (length t = 2 \<or> (length t = 3 \<and> t ! 2 \<in> set ''LRC'')))"

definition RW_TIGHT_RE :: "string \<Rightarrow> bool" where
  \<comment> \<open>\<open>^\d{2}[LRC]$\<close>, fullmatch\<close>
  "RW_TIGHT_RE t = (length t = 3 \<and> list_all is_dec (take 2 t) \<and> t ! 2 \<in> set ''LRC'')"

definition TW_CODE_RE :: "string \<Rightarrow> bool" where
  \<comment> \<open>\<open>^[A-Z](\d{1,2})?$\<close>, fullmatch\<close>
  "TW_CODE_RE t =
     (case t of [] \<Rightarrow> False | c # ds \<Rightarrow> is_AZ c \<and> length ds \<le> 2 \<and> list_all is_dec ds)"

definition HDG_RE :: "string \<Rightarrow> bool" where
  \<comment> \<open>\<open>^\d{1,3}$\<close>, fullmatch\<close>
  "HDG_RE t = (1 \<le> length t \<and> length t \<le> 3 \<and> list_all is_dec t)"

definition FREQ_RE :: "string \<Rightarrow> bool" where
  \<comment> \<open>\<open>^\d{3}\.\d{1,3}$\<close>, fullmatch\<close>
  "FREQ_RE t =
     (length (takeWhile is_dec t) = 3
      \<and> (case dropWhile is_dec t of
            [] \<Rightarrow> False
          | p # ds \<Rightarrow> p = CHR ''.'' \<and> 1 \<le> length ds \<and> length ds \<le> 3 \<and> list_all is_dec ds))"

definition NUM_RE :: "string \<Rightarrow> bool" where
  \<comment> \<open>\<open>^\d+(\.\d+)?$\<close>, fullmatch\<close>
  "NUM_RE t =
     (let a = takeWhile is_dec t; r = dropWhile is_dec t in
      a \<noteq> [] \<and> (r = [] \<or> (hd r = CHR ''.'' \<and> tl r \<noteq> [] \<and> list_all is_dec (tl r))))"

definition ICAO_CODE_RE :: "string \<Rightarrow> bool" where
  \<comment> \<open>\<open>^[A-Z]{3}$\<close>, fullmatch\<close>
  "ICAO_CODE_RE t = (length t = 3 \<and> list_all is_AZ t)"

definition digits_then_end :: "nat \<Rightarrow> nat \<Rightarrow> string \<Rightarrow> string option" where
  \<comment> \<open>\<open>\s*([0-9]{lo,hi})$\<close> on the rest of a token: the group.  White space and digits are
      disjoint, so both greedy runs are maximal and no shorter run can succeed.\<close>
  "digits_then_end lo hi r =
     (let r' = dropWhile is_space r; ds = takeWhile is_dec r' in
      if lo \<le> length ds \<and> length ds \<le> hi \<and> dollar (dropWhile is_dec r')
      then Some ds else None)"

definition ICAO_MIX_RE :: "string \<Rightarrow> (string \<times> string) option" where
  \<comment> \<open>\<open>^([A-Z]{3})\s*([0-9]{1,5})$\<close>, match: the two groups\<close>
  "ICAO_MIX_RE t =
     (if length (take 3 t) = 3 \<and> list_all is_AZ (take 3 t)
      then (case digits_then_end 1 5 (drop 3 t) of
              None \<Rightarrow> None
            | Some ds \<Rightarrow> Some (take 3 t, ds))
      else None)"

definition FL_RE :: "string \<Rightarrow> string option" where
  \<comment> \<open>\<open>^FL\s*([0-9]{2,3})$\<close> with \<open>IGNORECASE\<close>, match: the group.  Below U+0100 only
      \<open>F\<close>, \<open>f\<close> match \<open>F\<close> and only \<open>L\<close>, \<open>l\<close> match \<open>L\<close>.\<close>
  "FL_RE t =
     (case t of
        f # l # r \<Rightarrow>
          if f \<in> set ''Ff'' \<and> l \<in> set ''Ll'' then digits_then_end 2 3 r else None
      | _ \<Rightarrow> None)"

function split :: "string \<Rightarrow> string list" where
  \<comment> \<open>\<open>str.split()\<close>: the maximal runs without white space\<close>
  "split s =
     (case dropWhile is_space s of
        [] \<Rightarrow> []
      | c # cs \<Rightarrow>
          (c # takeWhile (\<lambda>x. \<not> is_space x) cs) # split (dropWhile (\<lambda>x. \<not> is_space x) cs))"
  by pat_completeness auto
termination
proof (relation "measure length")
  show "wf (measure length)" by simp
next
  fix s :: string and c :: char and cs :: string
  assume "dropWhile is_space s = c # cs"
  then have "Suc (length cs) \<le> length s"
    using length_dropWhile_le [of is_space s] by simp
  moreover have "length (dropWhile (\<lambda>x. \<not> is_space x) cs) \<le> length cs"
    by (rule length_dropWhile_le)
  ultimately show "(dropWhile (\<lambda>x. \<not> is_space x) cs, s) \<in> measure length"
    by simp
qed


section \<open>The eight matchers\<close>

subsection \<open>QNH\<close>

definition QNHFSM_match :: FSM where
  "QNHFSM_match tokens index =
     (if length tokens \<le> index \<or> lower (tokens ! index) \<noteq> ''qnh'' then Inr None
      else if index + 1 < length tokens \<and> QNH_RE (tokens ! (index + 1)) then
        (let v = tokens ! (index + 1);
             r = join '' '' (slice tokens index (index + 2)) in
         case digits_to_spoken v of
           Inl e \<Rightarrow> Inl e
         | Inr sp \<Rightarrow> Inr (Some (mk_match QNH r (''QNH '' @ v) (''qnh '' @ sp) 0.95 2)))
      else
        (let digs = collect_digits 4 (drop (index + 1) tokens);
             j = index + 1 + length digs in
         if length digs = 4 then
           (let v = concat digs;
                r = join '' '' (slice tokens index j) in
            case digits_to_spoken v of
              Inl e \<Rightarrow> Inl e
            | Inr sp \<Rightarrow>
                Inr (Some (mk_match QNH r (''QNH '' @ v) (''qnh '' @ sp) 0.90
                             (int j - int index))))
         else Inr None))"

subsection \<open>Runway\<close>

definition RW_PREFIX :: "string list" where
  "RW_PREFIX = [''runway'', ''rwy'']"

definition DIR_WORD_TO_CODE :: "(string \<times> string) list" where
  "DIR_WORD_TO_CODE = [(''left'', ''L''), (''right'', ''R''), (''center'', ''C'')]"

definition DIR_CODE_TO_WORD :: "(string \<times> string) list" where
  "DIR_CODE_TO_WORD = [(''L'', ''left''), (''R'', ''right''), (''C'', ''center'')]"

definition runway_spoken :: "string \<Rightarrow> string \<Rightarrow> exn + string" where
  \<comment> \<open>\<open>spoken = f"runway {digits_to_spoken(num)}"\<close>, then
      \<open>if side: spoken += f" {_DIR_CODE_TO_WORD[side]}"\<close>\<close>
  "runway_spoken num side =
     (case digits_to_spoken num of
        Inl e \<Rightarrow> Inl e
      | Inr sp \<Rightarrow>
          if side \<noteq> [] then
            (case subscript DIR_CODE_TO_WORD side of
               Inl e \<Rightarrow> Inl e
             | Inr w \<Rightarrow> Inr (''runway '' @ sp @ '' '' @ w))
          else Inr (''runway '' @ sp))"

definition RunwayFSM_match_after_prefix :: FSM where
  "RunwayFSM_match_after_prefix tokens index =
     (if length tokens \<le> index + 1 then Inr None
      else
        (let t1 = upper (tokens ! (index + 1)) in
         if RW_CODE_RE t1 then
           (let num = take 2 t1;
                side = (if length t1 = 3 then [t1 ! 2] else []);
                r = join '' '' (slice tokens index (index + 2)) in
            case runway_spoken num side of
              Inl e \<Rightarrow> Inl e
            | Inr sp \<Rightarrow> Inr (Some (mk_match RUNWAY r (''RWY '' @ num @ side) sp 0.95 2)))
         else
           (let d1 = token_to_digit (tokens ! (index + 1));
                d2 = (if index + 2 < length tokens
                      then token_to_digit (tokens ! (index + 2)) else None) in
            case (d1, d2) of
              (Some a, Some b) \<Rightarrow>
                (let num = a @ b;
                     has_side = (index + 3 < length tokens
                                 \<and> map_of DIR_WORD_TO_CODE (lower (tokens ! (index + 3))) \<noteq> None) in
                 case (if has_side
                       then subscript DIR_WORD_TO_CODE (lower (tokens ! (index + 3)))
                       else Inr []) of
                   Inl e \<Rightarrow> Inl e
                 | Inr side \<Rightarrow>
                     (let j = (if has_side then index + 4 else index + 3);
                          r = join '' '' (slice tokens index j) in
                      case runway_spoken num side of
                        Inl e \<Rightarrow> Inl e
                      | Inr sp \<Rightarrow>
                          Inr (Some (mk_match RUNWAY r (''RWY '' @ num @ side) sp 0.90
                                       (int j - int index)))))
            | _ \<Rightarrow> Inr None)))"

definition RunwayFSM_match :: FSM where
  "RunwayFSM_match tokens index =
     (if length tokens \<le> index then Inr None
      else if lower (tokens ! index) \<in> set RW_PREFIX
      then RunwayFSM_match_after_prefix tokens index
      else
        (let t = upper (tokens ! index) in
         if RW_TIGHT_RE t then
           (let num = take 2 t; side = [t ! 2]; r = tokens ! index in
            case digits_to_spoken num of
              Inl e \<Rightarrow> Inl e
            | Inr sp \<Rightarrow>
                (case subscript DIR_CODE_TO_WORD side of
                   Inl e \<Rightarrow> Inl e
                 | Inr w \<Rightarrow>
                     Inr (Some (mk_match RUNWAY r (''RWY '' @ num @ side)
                                  (''runway '' @ sp @ '' '' @ w) 0.75 1))))
         else Inr None))"


subsection \<open>Taxiway\<close>

definition TW_PREFIX :: "string list" where
  "TW_PREFIX = [''taxiway'', ''twy'', ''tw'']"

definition TaxiwayFSM_match :: FSM where
  "TaxiwayFSM_match tokens index =
     (if length tokens \<le> index then Inr None
      else if \<not> (lower (tokens ! index) \<in> set TW_PREFIX \<and> index + 1 < length tokens)
      then Inr None
      else
        (let start = index + 1;
             t = upper (tokens ! start) in
         if TW_CODE_RE t then
           (let letter = [t ! 0];
                digits = (if 1 < length t then drop 1 t else []);
                r = join '' '' (slice tokens index (start + 1));
                sp0 = ''taxiway '' @ dict_get ICAO_REVERSE letter letter in
            case (if digits \<noteq> []
                  then (case digits_to_spoken digits of
                          Inl e \<Rightarrow> Inl e
                        | Inr ds \<Rightarrow> Inr (sp0 @ '' '' @ ds))
                  else Inr sp0) of
              Inl e \<Rightarrow> Inl e
            | Inr sp \<Rightarrow>
                Inr (Some (mk_match TAXIWAY r (''TWY '' @ letter @ digits) sp 0.90
                             (int start - int index + 1))))
         else
           (let w0 = lower (tokens ! start) in
            if map_of ICAO_ALPHABET w0 \<noteq> None then
              (case subscript ICAO_ALPHABET w0 of
                 Inl e \<Rightarrow> Inl e
               | Inr letter \<Rightarrow>
                   (let digs = collect_digits 2 (drop (start + 1) tokens);
                        j = start + 1 + length digs;
                        r = join '' '' (slice tokens index j);
                        sp0 = ''taxiway '' @ w0 in
                    case (if digs \<noteq> []
                          then (case digits_to_spoken (concat digs) of
                                  Inl e \<Rightarrow> Inl e
                                | Inr ds \<Rightarrow> Inr (sp0 @ '' '' @ ds))
                          else Inr sp0) of
                      Inl e \<Rightarrow> Inl e
                    | Inr sp \<Rightarrow>
                        Inr (Some (mk_match TAXIWAY r (''TWY '' @ letter @ concat digs) sp 0.90
                                     (int j - int index)))))
            else Inr None)))"

subsection \<open>Heading\<close>

definition HDR_PREFIX :: "string list" where
  "HDR_PREFIX = [''heading'', ''hdg'']"

definition HeadingFSM_match :: FSM where
  "HeadingFSM_match tokens index =
     (if length tokens \<le> index then Inr None
      else if lower (tokens ! index) \<notin> set HDR_PREFIX then Inr None
      else if index + 1 < length tokens \<and> HDG_RE (tokens ! (index + 1)) then
        (let deg = zfill 3 (tokens ! (index + 1));
             r = join '' '' (slice tokens index (index + 2)) in
         case digits_to_spoken deg of
           Inl e \<Rightarrow> Inl e
         | Inr sp \<Rightarrow>
             Inr (Some (mk_match HEADING r (''HDG '' @ deg) (''heading '' @ sp) 0.95 2)))
      else
        (let digits = collect_digits 3 (drop (index + 1) tokens);
             j = index + 1 + length digits in
         if 2 \<le> length digits then
           (let deg = zfill 3 (concat digits);
                r = join '' '' (slice tokens index j) in
            case digits_to_spoken deg of
              Inl e \<Rightarrow> Inl e
            | Inr sp \<Rightarrow>
                Inr (Some (mk_match HEADING r (''HDG '' @ deg) (''heading '' @ sp) 0.90
                             (int j - int index))))
         else Inr None))"

subsection \<open>Frequency\<close>

definition FREQ_PREFIX :: "string list" where
  "FREQ_PREFIX = [''freq'', ''frequency'', ''contact'', ''on'']"

definition FrequencyFSM_match :: FSM where
  "FrequencyFSM_match tokens index =
     (if length tokens \<le> index then Inr None
      else
        (let start = (if lower (tokens ! index) \<in> set FREQ_PREFIX \<and> index + 1 < length tokens
                      then index + 1 else index);
             tok = tokens ! start in
         if FREQ_RE tok then
           (let r = join '' '' (slice tokens index (start + 1)) in
            case num_str_to_spoken tok of
              Inl e \<Rightarrow> Inl e
            | Inr sp \<Rightarrow>
                Inr (Some (mk_match FREQUENCY r tok sp 0.95 (int start - int index + 1))))
         else
           (let major = collect_digits 4 (drop start tokens);
                j = start + length major in
            if 2 \<le> length major \<and> j < length tokens \<and> lower (tokens ! j) \<in> set DECIMAL_WORDS
            then
              (let minor = collect_digits 3 (drop (j + 1) tokens);
                   j' = j + 1 + length minor in
               if minor \<noteq> [] then
                 (let c = concat major @ ''.'' @ concat minor;
                      r = join '' '' (slice tokens index j') in
                  case num_str_to_spoken c of
                    Inl e \<Rightarrow> Inl e
                  | Inr sp \<Rightarrow>
                      Inr (Some (mk_match FREQUENCY r c sp 0.90 (int j' - int index))))
               else Inr None)
            else Inr None)))"

subsection \<open>Value with unit\<close>

definition UNIT :: "(string \<times> string \<times> string) list" where
  "UNIT =
     [(''ft'', ''ft'', ''feet''), (''feet'', ''ft'', ''feet''), (''foot'', ''ft'', ''feet''),
      (''kt'', ''kt'', ''knots''), (''kts'', ''kt'', ''knots''), (''knot'', ''kt'', ''knots''),
      (''knots'', ''kt'', ''knots''), (''deg'', ''deg'', ''degrees''),
      (''degree'', ''deg'', ''degrees''), (''degrees'', ''deg'', ''degrees'')]"

definition ValueFSM_match :: FSM where
  "ValueFSM_match tokens index =
     (if length tokens \<le> index then Inr None
      else if index + 1 < length tokens \<and> NUM_RE (tokens ! index)
              \<and> map_of UNIT (lower (tokens ! (index + 1))) \<noteq> None
      then
        (let num = tokens ! index in
         case subscript UNIT (lower (tokens ! (index + 1))) of
           Inl e \<Rightarrow> Inl e
         | Inr (u_code, u_spk) \<Rightarrow>
             (let r = join '' '' (slice tokens index (index + 2)) in
              case num_str_to_spoken num of
                Inl e \<Rightarrow> Inl e
              | Inr sp \<Rightarrow>
                  Inr (Some (mk_match VALUE r (num @ '' '' @ u_code) (sp @ '' '' @ u_spk)
                               0.90 2))))
      else
        (let major = collect_digits 6 (drop index tokens);
             j = index + length major in
         if major = [] then Inr None
         else
           (let has_dec = (j < length tokens \<and> lower (tokens ! j) \<in> set DECIMAL_WORDS);
                frac = (if has_dec then collect_digits 6 (drop (j + 1) tokens) else []);
                j' = (if has_dec then j + 1 + length frac else j) in
            if j' < length tokens \<and> map_of UNIT (lower (tokens ! j')) \<noteq> None then
              (case subscript UNIT (lower (tokens ! j')) of
                 Inl e \<Rightarrow> Inl e
               | Inr (u_code, u_spk) \<Rightarrow>
                   (let j'' = j' + 1;
                        num = concat major @ (if frac \<noteq> [] then ''.'' @ concat frac else []);
                        r = join '' '' (slice tokens index j'') in
                    case num_str_to_spoken num of
                      Inl e \<Rightarrow> Inl e
                    | Inr sp \<Rightarrow>
                        Inr (Some (mk_match VALUE r (num @ '' '' @ u_code) (sp @ '' '' @ u_spk)
                                     0.85 (int j'' - int index)))))
            else Inr None)))"


subsection \<open>Call sign\<close>

definition spoken_digits :: "string \<Rightarrow> string" where
  \<comment> \<open>\<open>" ".join(NUMBER_REVERSE.get(ch, ch) for ch in digits)\<close>: the keys of
      \<open>NUMBER_REVERSE\<close> are integers and \<open>ch\<close> is a string, so every lookup misses and
      yields its default, the character itself\<close>
  "spoken_digits digits = join '' '' (map (\<lambda>ch. [ch]) digits)"

fun callsign_digits :: "string list \<Rightarrow> string list" where
  \<comment> \<open>the loop of the separated form over the tokens after the code: a token that
      \<open>isdigit\<close> is taken whole, else the token must be one digit, spoken or literal\<close>
  "callsign_digits [] = []"
| "callsign_digits (tok # ts) =
     (if isdigit tok then tok # callsign_digits ts
      else (case token_to_digit tok of
              None \<Rightarrow> []
            | Some d \<Rightarrow> d # callsign_digits ts))"

fun callsign_airlines :: "(string \<times> string) list \<Rightarrow> FSM" where
  \<comment> \<open>\<open>for icao, name in AIRLINE_ICAO.items()\<close>, in insertion order\<close>
  "callsign_airlines [] tokens index = Inr None"
| "callsign_airlines ((icao, name) # rest) tokens index =
     (let nt = split name in
      if slice tokens index (index + length nt) \<noteq> nt
      then callsign_airlines rest tokens index
      else
        (let digits = collect_all_digits (drop (index + length nt) tokens);
             j = index + length nt + length digits in
         if digits \<noteq> [] then
           (let dstr = concat digits;
                r = join '' '' (slice tokens index j) in
            Inr (Some (mk_match CALLSIGN r (icao @ dstr) (name @ '' '' @ spoken_digits dstr)
                         0.85 (int j - int index))))
         else callsign_airlines rest tokens index))"

definition CallsignFSM_match :: FSM where
  "CallsignFSM_match tokens index =
     (if length tokens \<le> index then Inr None
      else
        (let t0 = tokens ! index; t0u = upper t0 in
         case ICAO_MIX_RE t0u of
           Some (icao, digits) \<Rightarrow>
             (let name = dict_get AIRLINE_ICAO icao icao in
              Inr (Some (mk_match CALLSIGN t0 (icao @ digits)
                           (name @ '' '' @ spoken_digits digits) 1 1)))
         | None \<Rightarrow>
             (let digits = (if ICAO_CODE_RE t0u
                            then callsign_digits (drop (index + 1) tokens) else []);
                  j = index + 1 + length digits in
              if ICAO_CODE_RE t0u \<and> digits \<noteq> [] then
                (let icao = t0u;
                     dstr = concat digits;
                     name = dict_get AIRLINE_ICAO icao icao;
                     r = join '' '' (slice tokens index j) in
                 Inr (Some (mk_match CALLSIGN r (icao @ dstr)
                              (name @ '' '' @ spoken_digits dstr) 0.90 (int j - int index))))
              else callsign_airlines AIRLINE_ICAO tokens index)))"

subsection \<open>Flight level\<close>

definition NORM_WORD :: "(string \<times> string) list" where
  "NORM_WORD =
     [(''tree'', ''three''), (''fife'', ''five''), (''niner'', ''nine''), (''ait'', ''eight''),
      (''oh'', ''zero'')]"

definition norm_word :: "string \<Rightarrow> exn + string" where
  "norm_word x = (if isdigit x then digits_to_spoken x else Inr (dict_get NORM_WORD x x))"

fun flight_level_nums :: "string list \<Rightarrow> string list" where
  \<comment> \<open>the loop of the spoken form over the tokens after \<open>flight level\<close>: the lower-cased
      tokens that are number words or one-character digits, up to the first other token\<close>
  "flight_level_nums [] = []"
| "flight_level_nums (t # ts) =
     (let w = lower t in
      if map_of NUMBER_WORDS w \<noteq> None \<or> (isdigit w \<and> length w = 1)
      then w # flight_level_nums ts
      else [])"

definition FlightLevelFSM_match :: FSM where
  "FlightLevelFSM_match tokens index =
     (if length tokens \<le> index then Inr None
      else
        (let tok = tokens ! index in
         case FL_RE (filter (\<lambda>c. c \<noteq> CHR '' '') tok) of
           Some fl \<Rightarrow>
             (case digits_to_spoken fl of
                Inl e \<Rightarrow> Inl e
              | Inr sp \<Rightarrow>
                  Inr (Some (mk_match FLIGHT_LEVEL tok (''FL'' @ fl) (''flight level '' @ sp) 1 1)))
         | None \<Rightarrow>
             if lower tok = ''fl'' \<and> index + 1 < length tokens \<and> isdigit (tokens ! (index + 1))
             then
               (let fl = tokens ! (index + 1);
                    r = join '' '' (slice tokens index (index + 2)) in
                case digits_to_spoken fl of
                  Inl e \<Rightarrow> Inl e
                | Inr sp \<Rightarrow>
                    Inr (Some (mk_match FLIGHT_LEVEL r (''FL'' @ fl) (''flight level '' @ sp)
                                 0.9 2)))
             else if slice tokens index (index + 2) = [''flight'', ''level''] then
               (let nums = flight_level_nums (drop (index + 2) tokens);
                    j = index + 2 + length nums in
                if 2 \<le> length nums then
                  (case sequence (map (\<lambda>w. if isdigit w then Inr w
                                             else (case subscript NUMBER_WORDS w of
                                                     Inl e \<Rightarrow> Inl e
                                                   | Inr n \<Rightarrow> Inr (str_digit n))) nums) of
                     Inl e \<Rightarrow> Inl e
                   | Inr digits \<Rightarrow>
                       (let fl = concat digits;
                            r = join '' '' (slice tokens index j) in
                        case sequence (map norm_word nums) of
                          Inl e \<Rightarrow> Inl e
                        | Inr ws \<Rightarrow>
                            Inr (Some (mk_match FLIGHT_LEVEL r (''FL'' @ fl)
                                         (''flight level '' @ join '' '' ws) 0.90
                                         (int j - int index)))))
                else Inr None)
             else Inr None))"

definition DEFAULT_FSMS :: "FSM list" where
  "DEFAULT_FSMS =
     [CallsignFSM_match, FlightLevelFSM_match, RunwayFSM_match, TaxiwayFSM_match,
      HeadingFSM_match, FrequencyFSM_match, QNHFSM_match, ValueFSM_match]"


section \<open>The driver\<close>

definition tuple_gt :: "int \<times> real \<Rightarrow> int \<times> real \<Rightarrow> bool" where
  \<comment> \<open>\<open>(s1, c1) > (s2, c2)\<close> on Python tuples: the first position where the two differ
      decides; equal tuples are not greater\<close>
  "tuple_gt a b =
     (if fst a \<noteq> fst b then fst b < fst a
      else if snd a \<noteq> snd b then snd b < snd a
      else False)"

fun best_match_loop ::
  "FSM list \<Rightarrow> string list \<Rightarrow> nat \<Rightarrow> MatchResult option \<Rightarrow> MatchResult option" where
  \<comment> \<open>\<open>for fsm in self.fsms\<close>: an exception of the matcher is caught and stands for
      \<open>res = None\<close> (the log entry is not modelled)\<close>
  "best_match_loop [] tokens index best = best"
| "best_match_loop (fsm # fsms) tokens index best =
     (let res = (case fsm tokens index of Inl e \<Rightarrow> None | Inr r \<Rightarrow> r) in
      case res of
        None \<Rightarrow> best_match_loop fsms tokens index best
      | Some r \<Rightarrow>
          (case best of
             None \<Rightarrow> best_match_loop fsms tokens index (Some r)
           | Some b \<Rightarrow>
               if tuple_gt (step r, confidence r) (step b, confidence b)
               then best_match_loop fsms tokens index (Some r)
               else best_match_loop fsms tokens index best))"

definition best_match :: "FSM list \<Rightarrow> string list \<Rightarrow> nat \<Rightarrow> MatchResult option" where
  "best_match fsms tokens index = best_match_loop fsms tokens index None"

definition getitem :: "'a list \<Rightarrow> nat \<Rightarrow> exn + 'a" where
  \<comment> \<open>\<open>xs[i]\<close> for \<open>i \<ge> 0\<close>\<close>
  "getitem xs i = (if i < length xs then Inr (xs ! i) else Inl IndexError)"

definition loop_body ::
  "FSM list \<Rightarrow> string list \<Rightarrow> RenderMode \<Rightarrow> nat \<times> string list \<Rightarrow> exn + nat \<times> string list" where
  \<comment> \<open>one iteration of \<open>while i < len(tokens)\<close> on the cursor and the output so far\<close>
  "loop_body fsms tokens mode st =
     (case st of (i, out) \<Rightarrow>
        (case best_match fsms tokens i of
           None \<Rightarrow>
             (case getitem tokens i of
                Inl e \<Rightarrow> Inl e
              | Inr t \<Rightarrow> Inr (i + 1, out @ [t]))
         | Some best \<Rightarrow>
             Inr (i + nat (max 1 (step best)), out @ [render (entity best) mode])))"

lemma loop_body_advances:
  assumes "loop_body fsms tokens mode (i, out) = Inr (i', out')"
  shows "i < i'"
proof (cases "best_match fsms tokens i")
  case None
  then show ?thesis using assms
    by (auto simp: loop_body_def split: sum.splits)
next
  case (Some best)
  then have "i' = i + nat (max 1 (step best))"
    using assms by (simp add: loop_body_def)
  then show ?thesis by simp
qed

function parse_loop ::
  "FSM list \<Rightarrow> string list \<Rightarrow> RenderMode \<Rightarrow> nat \<times> string list \<Rightarrow> exn + string list" where
  "parse_loop fsms tokens mode (i, out) =
     (if i < length tokens then
        (case loop_body fsms tokens mode (i, out) of
           Inl e \<Rightarrow> Inl e
         | Inr st \<Rightarrow> parse_loop fsms tokens mode st)
      else Inr out)"
  by pat_completeness auto
termination
proof (relation "measure (\<lambda>(fsms, tokens, mode, st). length tokens - fst st)")
  show "wf (measure (\<lambda>(fsms, tokens, mode, st). length tokens - fst st))" by simp
next
  fix fsms :: "FSM list" and tokens :: "string list" and mode :: RenderMode
    and i :: nat and out :: "string list" and st :: "nat \<times> string list"
  assume lt: "i < length tokens" and body: "loop_body fsms tokens mode (i, out) = Inr st"
  have "i < fst st"
    using loop_body_advances [of fsms tokens mode i out "fst st" "snd st"] body by simp
  then show "((fsms, tokens, mode, st), (fsms, tokens, mode, (i, out)))
      \<in> measure (\<lambda>(fsms, tokens, mode, st). length tokens - fst st)"
    using lt by simp
qed

definition parse :: "FSM list \<Rightarrow> string \<Rightarrow> RenderMode \<Rightarrow> exn + string" where
  "parse fsms text mode =
     (let normalized = normalize_text text;
          tokens = tokenize normalized in
      case parse_loop fsms tokens mode (0, []) of
        Inl e \<Rightarrow> Inl e
      | Inr out \<Rightarrow> Inr (join '' '' out))"


declare parse_loop.simps [simp del]

text \<open>
  The loop with an explicit bound on the number of iterations: \<open>None\<close> when the bound is
  used up before the cursor reaches the end.
\<close>

fun run_loop ::
  "nat \<Rightarrow> FSM list \<Rightarrow> string list \<Rightarrow> RenderMode \<Rightarrow> nat \<times> string list
     \<Rightarrow> (exn + string list) option" where
  "run_loop 0 fsms tokens mode st =
     (if fst st < length tokens then None else Some (Inr (snd st)))"
| "run_loop (Suc n) fsms tokens mode st =
     (if fst st < length tokens then
        (case loop_body fsms tokens mode st of
           Inl e \<Rightarrow> Some (Inl e)
         | Inr st' \<Rightarrow> run_loop n fsms tokens mode st')
      else Some (Inr (snd st)))"

text \<open>
  A matcher whose exceptions are replaced by \<open>None\<close>, position by position.
\<close>

definition no_match_on_fault :: "FSM \<Rightarrow> FSM" where
  "no_match_on_fault fsm tokens index =
     (case fsm tokens index of Inl e \<Rightarrow> Inr None | Inr r \<Rightarrow> Inr r)"

text \<open>
  The matches the matchers return at a position, in the order of the matcher list, and the
  order the specification describes: a longer match outranks a shorter one, and among matches
  of equal length the more confident one outranks the other.
\<close>

definition returned :: "FSM list \<Rightarrow> string list \<Rightarrow> nat \<Rightarrow> MatchResult list" where
  "returned fsms tokens index =
     List.map_filter (\<lambda>fsm. case fsm tokens index of Inl e \<Rightarrow> None | Inr r \<Rightarrow> r) fsms"

definition outranks :: "MatchResult \<Rightarrow> MatchResult \<Rightarrow> bool" where
  "outranks a b = (step b < step a \<or> (step a = step b \<and> confidence b < confidence a))"

text \<open>The selection seen as a fold over the returned matches (used in the proofs).\<close>

fun pick :: "MatchResult list \<Rightarrow> MatchResult option \<Rightarrow> MatchResult option" where
  "pick [] best = best"
| "pick (r # rs) None = pick rs (Some r)"
| "pick (r # rs) (Some b) = pick rs (if outranks r b then Some r else Some b)"


text \<open>
  A token of two decimal digits and a side letter, in either case: the tokens whose upper case
  the pattern \<open>^\d{2}[LRC]$\<close> accepts.
\<close>

definition compact_runway_token :: "string \<Rightarrow> bool" where
  "compact_runway_token t =
     (length t = 3 \<and> is_dec (t ! 0) \<and> is_dec (t ! 1) \<and> t ! 2 \<in> set ''LRClrc'')"



text \<open>The tokens of \<open>qnh one zero one three\<close>, an input of the integration tests.\<close>

definition qnh_spoken_tokens :: "string list" where
  "qnh_spoken_tokens = [''qnh'', ''one'', ''zero'', ''one'', ''three'']"


text \<open>The tokens of \<open>taxi via mike six to runway 34L\<close>, an input of the integration tests.\<close>

definition taxi_tokens :: "string list" where
  "taxi_tokens = [''taxi'', ''via'', ''mike'', ''six'', ''to'', ''runway'', ''34'', ''l'']"

lemmas char_defs = cp_def is_AZ_def is_az_def is_letter_def is_dec_def is_space_def
  isdigit_char_def is_word_def has_lower_case_def has_upper_case_def lower_char_def lower_def
  upper_char_def upper_def isdigit_def strip_def is_symbol_def

lemmas tokenizer_defs = number_match_def letters_fullmatch_def punct_fullmatch_def
  sub_separators_def normalize_text_def tokenize_def

lemmas helper_defs = mk_match_def slice_def ICAO_ALPHABET_def ICAO_REVERSE_def NUMBER_WORDS_def
  NUMBER_REVERSE_def DECIMAL_WORDS_def AIRLINE_ICAO_def subscript_def dict_get_def str_digit_def
  int_char_def token_to_digit_def digits_to_spoken_def num_str_to_spoken_def zfill_def

lemmas pattern_defs = dollar_def QNH_RE_def RW_CODE_RE_def RW_TIGHT_RE_def TW_CODE_RE_def
  HDG_RE_def FREQ_RE_def NUM_RE_def ICAO_CODE_RE_def digits_then_end_def ICAO_MIX_RE_def FL_RE_def

lemmas matcher_defs = QNHFSM_match_def RW_PREFIX_def DIR_WORD_TO_CODE_def DIR_CODE_TO_WORD_def
  runway_spoken_def RunwayFSM_match_after_prefix_def RunwayFSM_match_def TW_PREFIX_def
  TaxiwayFSM_match_def HDR_PREFIX_def HeadingFSM_match_def FREQ_PREFIX_def FrequencyFSM_match_def
  UNIT_def ValueFSM_match_def spoken_digits_def CallsignFSM_match_def NORM_WORD_def norm_word_def
  FlightLevelFSM_match_def

lemmas driver_defs = tuple_gt_def best_match_def getitem_def loop_body_def parse_def render_def
  parse_loop.simps


section \<open>Properties of the tokenizer\<close>

definition is_word_token :: "string \<Rightarrow> bool" where
  "is_word_token t = (t \<noteq> [] \<and> list_all is_az t)"

definition is_symbol_token :: "string \<Rightarrow> bool" where
  "is_symbol_token t = (t \<noteq> [] \<and> list_all (\<lambda>c. \<not> is_letter c \<and> \<not> is_dec c) t)"

lemma dot_not_dec: "\<not> is_dec (CHR ''.'')"
  by (simp add: is_dec_def cp_def)

lemma takeWhile_all: "list_all P (takeWhile P xs)"
  by (induction xs) auto

lemma takeWhile_app_stop: "list_all P a \<Longrightarrow> \<not> P x \<Longrightarrow> takeWhile P (a @ x # r) = a"
  by (induction a) auto

lemma dropWhile_app_stop: "list_all P a \<Longrightarrow> \<not> P x \<Longrightarrow> dropWhile P (a @ x # r) = x # r"
  by (induction a) auto

lemma number_match_fullmatch:
  assumes "is_dec c"
  shows "NUM_RE (fst (number_match (c # cs)))"
proof -
  define a where "a = takeWhile is_dec (c # cs)"
  define r where "r = dropWhile is_dec (c # cs)"
  have a_ne: "a \<noteq> []" using assms by (simp add: a_def)
  have a_all: "list_all is_dec a" unfolding a_def by (rule takeWhile_all)
  have plain: "NUM_RE a"
    using a_ne a_all by (simp add: NUM_RE_def Let_def list_all_iff takeWhile_eq_all_conv [THEN iffD2])
  have nm: "number_match (c # cs) =
     (case r of
        p # q # r' \<Rightarrow>
          if p = CHR ''.'' \<and> is_dec q
          then (a @ [p] @ takeWhile is_dec (q # r'), dropWhile is_dec (q # r'))
          else (a, r)
      | _ \<Rightarrow> (a, r))"
    unfolding number_match_def Let_def a_def r_def ..
  show ?thesis
  proof (cases r)
    case Nil
    then show ?thesis using plain nm by simp
  next
    case (Cons p t)
    note rp = Cons
    show ?thesis
    proof (cases t)
      case Nil
      then show ?thesis using plain nm rp by simp
    next
      case (Cons q r')
      show ?thesis
      proof (cases "p = CHR ''.'' \<and> is_dec q")
        case False
        then show ?thesis using plain nm rp Cons by auto
      next
        case True
        define b where "b = takeWhile is_dec (q # r')"
        have b_ne: "b \<noteq> []" using True by (simp add: b_def)
        have b_all: "list_all is_dec b" unfolding b_def by (rule takeWhile_all)
        have res: "fst (number_match (c # cs)) = a @ CHR ''.'' # b"
          using nm rp Cons True by (simp add: b_def)
        have t1: "takeWhile is_dec (a @ CHR ''.'' # b) = a"
          using a_all dot_not_dec by (rule takeWhile_app_stop)
        have t2: "dropWhile is_dec (a @ CHR ''.'' # b) = CHR ''.'' # b"
          using a_all dot_not_dec by (rule dropWhile_app_stop)
        show ?thesis
          unfolding res NUM_RE_def Let_def t1 t2
          using a_ne b_ne b_all by simp
      qed
    qed
  qed
qed

lemma takeWhile_run:
  "P c \<Longrightarrow> takeWhile P (c # cs) \<noteq> [] \<and> list_all P (takeWhile P (c # cs))"
  using takeWhile_all [of P "c # cs"] by simp

lemma findall_token_shape:
  "t \<in> set (findall_token s) \<Longrightarrow>
     letters_fullmatch t \<or> NUM_RE t \<or> (t \<noteq> [] \<and> list_all is_symbol t)"
proof (induction s rule: findall_token.induct)
  case 1
  then show ?case by simp
next
  case (2 c cs)
  show ?case
  proof (cases "is_letter c")
    case True
    have "findall_token (c # cs) =
        takeWhile is_letter (c # cs) # findall_token (dropWhile is_letter (c # cs))"
      using True by (simp only: findall_token.simps if_True)
    then have "t = takeWhile is_letter (c # cs)
        \<or> t \<in> set (findall_token (dropWhile is_letter (c # cs)))"
      using "2.prems" by (simp only: set_simps insert_iff)
    then show ?thesis
    proof
      assume "t = takeWhile is_letter (c # cs)"
      then have "letters_fullmatch t"
        using takeWhile_run [of is_letter c cs, OF True]
        by (simp add: letters_fullmatch_def del: takeWhile.simps)
      then show ?thesis ..
    next
      assume "t \<in> set (findall_token (dropWhile is_letter (c # cs)))"
      then show ?thesis using "2.IH"(1) True by blast
    qed
  next
    case False
    note nl = False
    show ?thesis
    proof (cases "is_dec c")
      case True
      have "findall_token (c # cs) =
          fst (number_match (c # cs)) # findall_token (snd (number_match (c # cs)))"
        using True nl by (simp only: findall_token.simps if_True if_False)
      then have "t = fst (number_match (c # cs))
          \<or> t \<in> set (findall_token (snd (number_match (c # cs))))"
        using "2.prems" by (simp only: set_simps insert_iff)
      then show ?thesis
      proof
        assume "t = fst (number_match (c # cs))"
        then have "NUM_RE t"
          using number_match_fullmatch [OF True, of cs] by simp
        then show ?thesis by blast
      next
        assume "t \<in> set (findall_token (snd (number_match (c # cs))))"
        then show ?thesis using "2.IH"(2) True nl by blast
      qed
    next
      case False
      note nd = False
      show ?thesis
      proof (cases "is_symbol c")
        case True
        have "findall_token (c # cs) =
            takeWhile is_symbol (c # cs) # findall_token (dropWhile is_symbol (c # cs))"
          using True nl nd by (simp only: findall_token.simps if_True if_False)
        then have "t = takeWhile is_symbol (c # cs)
            \<or> t \<in> set (findall_token (dropWhile is_symbol (c # cs)))"
          using "2.prems" by (simp only: set_simps insert_iff)
        then show ?thesis
        proof
          assume "t = takeWhile is_symbol (c # cs)"
          then have "t \<noteq> [] \<and> list_all is_symbol t"
            using takeWhile_run [of is_symbol c cs, OF True] by (simp del: takeWhile.simps)
          then show ?thesis by blast
        next
          assume "t \<in> set (findall_token (dropWhile is_symbol (c # cs)))"
          then show ?thesis using "2.IH"(3) True nl nd by blast
        qed
      next
        case False
        have "findall_token (c # cs) = findall_token cs"
          using False nl nd by (simp only: findall_token.simps if_False)
        then show ?thesis using "2.IH"(4) "2.prems" False nl nd by simp
      qed
    qed
  qed
qed

lemma of_bool_le1: "of_bool b \<le> (1::nat)"
  by simp

lemma cp_lower_char: "has_lower_case c \<Longrightarrow> cp (lower_char c) = cp c + 32"
proof (cases c)
  case (Char b0 b1 b2 b3 b4 b5 b6 b7)
  assume h: "has_lower_case c"
  have "\<not> b5"
    using h of_bool_le1 [of b0] of_bool_le1 [of b1] of_bool_le1 [of b2] of_bool_le1 [of b3]
      of_bool_le1 [of b4]
    unfolding Char has_lower_case_def is_AZ_def cp_def
    by (cases b5; cases b6; cases b7;
        simp del: of_bool_eq_0_iff of_bool_eq_1_iff of_bool_less_eq_iff)
  then show ?thesis using h unfolding Char
    by (simp add: lower_char_def cp_def)
qed

lemma lower_letters:
  assumes "list_all is_letter s"
  shows "list_all is_az (lower s)"
proof -
  have "is_az (lower_char c)" if "is_letter c" for c
  proof (cases "is_AZ c")
    case True
    then have "cp (lower_char c) = cp c + 32"
      by (simp add: cp_lower_char has_lower_case_def)
    then show ?thesis using True by (simp add: is_az_def is_AZ_def)
  next
    case False
    then have "is_az c" using that by (simp add: is_letter_def)
    moreover from this have "\<not> has_lower_case c"
      by (auto simp: has_lower_case_def is_az_def is_AZ_def)
    ultimately show ?thesis by (simp add: lower_char_def)
  qed
  then show ?thesis using assms by (simp add: lower_def list_all_iff)
qed

lemma NUM_RE_chars:
  assumes "NUM_RE t" and "c \<in> set t"
  shows "is_dec c \<or> c = CHR ''.''"
proof -
  define a where "a = takeWhile is_dec t"
  define r where "r = dropWhile is_dec t"
  have t: "t = a @ r" by (simp add: a_def r_def)
  have a: "\<forall>x\<in>set a. is_dec x" using takeWhile_all [of is_dec t] by (simp add: a_def list_all_iff)
  have r: "r = [] \<or> (hd r = CHR ''.'' \<and> (\<forall>x\<in>set (tl r). is_dec x))"
    using assms(1) by (auto simp: NUM_RE_def Let_def r_def list_all_iff)
  have "\<forall>x\<in>set r. is_dec x \<or> x = CHR ''.''"
    using r by (cases r) auto
  then show ?thesis using a assms(2) t by auto
qed

lemma letter_not_dec: "is_letter c \<Longrightarrow> \<not> is_dec c"
  by (auto simp: is_letter_def is_AZ_def is_az_def is_dec_def)

lemma letter_not_dot: "is_letter c \<Longrightarrow> c \<noteq> CHR ''.''"
  by (auto simp: is_letter_def is_AZ_def is_az_def cp_def)

lemma az_letter: "is_az c \<Longrightarrow> is_letter c"
  by (simp add: is_letter_def)

lemma tokenize_shape:
  assumes "t \<in> set (tokenize text)"
  shows "is_word_token t \<or> NUM_RE t \<or> is_symbol_token t"
proof -
  from assms obtain raw where raw: "raw \<in> set (findall_token text)"
    and t: "t = (if letters_fullmatch raw then lower raw else raw)"
    by (auto simp: tokenize_def)
  show ?thesis
  proof (cases "letters_fullmatch raw")
    case True
    then have "is_word_token t"
      using t lower_letters [of raw] by (simp add: letters_fullmatch_def is_word_token_def lower_def)
    then show ?thesis ..
  next
    case False
    then have "NUM_RE raw \<or> (raw \<noteq> [] \<and> list_all is_symbol raw)"
      using findall_token_shape [OF raw] by blast
    then show ?thesis using False t
      by (auto simp: is_symbol_token_def is_symbol_def list_all_iff)
  qed
qed

lemma shape_no_mix:
  assumes "is_word_token t \<or> NUM_RE t \<or> is_symbol_token t"
  shows "\<not> (list_ex is_letter t \<and> list_ex is_dec t)"
  using assms NUM_RE_chars [of t] letter_not_dec letter_not_dot az_letter
  unfolding is_word_token_def is_symbol_token_def list_all_iff list_ex_iff
  by blast

lemma mixed_examples:
  "list_ex is_letter ''CSN6889'' \<and> list_ex is_dec ''CSN6889''"
  "list_ex is_letter ''csn6889'' \<and> list_ex is_dec ''csn6889''"
  "list_ex is_letter ''FL330'' \<and> list_ex is_dec ''FL330''"
  "list_ex is_letter ''fl330'' \<and> list_ex is_dec ''fl330''"
  "list_ex is_letter ''34L'' \<and> list_ex is_dec ''34L''"
  "list_ex is_letter ''34l'' \<and> list_ex is_dec ''34l''"
  by (simp_all add: is_letter_def is_AZ_def is_az_def is_dec_def cp_def)

text \<open>
  Claim C10.  Every token that \<open>tokenize\<close> produces is a run of lower-case letters
  \<open>a\<close> .. \<open>z\<close>, or a digit run optionally followed by a point and more digits (the
  shape \<open>\d+(\.\d+)?\<close>), or a non-empty run with no letter of \<open>[A-Za-z]\<close> and no digit
  of \<open>\d\<close>.  So no token holds both a letter and a digit, and none of \<open>CSN6889\<close>,
  \<open>FL330\<close>, \<open>34L\<close> (in either case) is ever a token.
\<close>

theorem tokenize_token_classes:
  assumes "t \<in> set (tokenize text)"
  shows "(is_word_token t \<or> NUM_RE t \<or> is_symbol_token t)
       \<and> \<not> (list_ex is_letter t \<and> list_ex is_dec t)
       \<and> t \<notin> {''CSN6889'', ''csn6889'', ''FL330'', ''fl330'', ''34L'', ''34l''}"
proof -
  have shape: "is_word_token t \<or> NUM_RE t \<or> is_symbol_token t"
    using assms by (rule tokenize_shape)
  have nomix: "\<not> (list_ex is_letter t \<and> list_ex is_dec t)"
    using shape by (rule shape_no_mix)
  have "t \<noteq> ''CSN6889''" "t \<noteq> ''csn6889''" "t \<noteq> ''FL330''"
       "t \<noteq> ''fl330''" "t \<noteq> ''34L''" "t \<noteq> ''34l''"
    using nomix mixed_examples by blast+
  then have "t \<notin> {''CSN6889'', ''csn6889'', ''FL330'', ''fl330'', ''34L'', ''34l''}"
    by (simp only: insert_iff empty_iff simp_thms not_False_eq_True)
  then show ?thesis using shape nomix by blast
qed

theorem tokenize_token_classes_witness:
  "''csn'' \<in> set (tokenize ''CSN6889, contact 118.75!'')
   \<and> (is_word_token ''csn'' \<or> NUM_RE ''csn'' \<or> is_symbol_token ''csn'')
   \<and> \<not> (list_ex is_letter ''csn'' \<and> list_ex is_dec ''csn'')
   \<and> ''csn'' \<notin> {''CSN6889'', ''csn6889'', ''FL330'', ''fl330'', ''34L'', ''34l''}"
proof -
  have tok: "tokenize ''CSN6889, contact 118.75!'' = [''csn'', ''6889'', ''contact'', ''118.75'']"
    by (simp add: tokenize_def is_space_def cp_def is_letter_def is_AZ_def is_az_def is_dec_def
        is_symbol_def number_match_def letters_fullmatch_def punct_fullmatch_def lower_def
        lower_char_def has_lower_case_def is_word_def)
  have h: "''csn'' \<in> set (tokenize ''CSN6889, contact 118.75!'')"
    unfolding tok by simp
  show ?thesis using h tokenize_token_classes [OF h] by blast
qed


section \<open>Properties of the driver\<close>

lemma tuple_gt_outranks:
  "tuple_gt (step r, confidence r) (step b, confidence b) = outranks r b"
  by (auto simp: tuple_gt_def outranks_def)

lemma best_match_loop_pick:
  "best_match_loop fsms tokens index best = pick (returned fsms tokens index) best"
proof (induction fsms arbitrary: best)
  case Nil
  then show ?case by (simp add: returned_def map_filter_simps)
next
  case (Cons fsm fsms)
  show ?case
  proof (cases "case fsm tokens index of Inl e \<Rightarrow> None | Inr r \<Rightarrow> r")
    case None
    then have "returned (fsm # fsms) tokens index = returned fsms tokens index"
      by (simp add: returned_def map_filter_simps)
    then show ?thesis using None Cons.IH by simp
  next
    case (Some r)
    then have ret: "returned (fsm # fsms) tokens index = r # returned fsms tokens index"
      by (simp add: returned_def map_filter_simps)
    show ?thesis
    proof (cases best)
      case None
      then show ?thesis using Some ret Cons.IH by simp
    next
      case (Some b)
      then show ?thesis
        using \<open>(case fsm tokens index of Inl e \<Rightarrow> None | Inr r \<Rightarrow> r) = Some r\<close> ret Cons.IH
        by (simp add: tuple_gt_outranks)
    qed
  qed
qed

lemma outranks_trans: "outranks a b \<Longrightarrow> outranks b c \<Longrightarrow> outranks a c"
  by (auto simp: outranks_def)

lemma outranks_neg: "outranks m b \<Longrightarrow> \<not> outranks r b \<Longrightarrow> outranks m r"
  by (auto simp: outranks_def)

lemma pick_first_max:
  "\<exists>pre m post. b # rs = pre @ m # post \<and> pick rs (Some b) = Some m
      \<and> (\<forall>x\<in>set pre. outranks m x) \<and> (\<forall>x\<in>set post. \<not> outranks x m)"
proof (induction rs arbitrary: b)
  case Nil
  have "[b] = [] @ b # []" by simp
  then show ?case by fastforce
next
  case (Cons r rs)
  show ?case
  proof (cases "outranks r b")
    case True
    obtain pre m post where split: "r # rs = pre @ m # post"
      and res: "pick rs (Some r) = Some m"
      and before: "\<forall>x\<in>set pre. outranks m x"
      and after: "\<forall>x\<in>set post. \<not> outranks x m"
      using Cons.IH [of r] by blast
    have "outranks m b"
    proof (cases pre)
      case Nil
      then have "m = r" using split by simp
      then show ?thesis using True by simp
    next
      case (Cons p pre')
      then have "p = r" using split by simp
      then have "outranks m r" using before Cons by simp
      then show ?thesis using True by (rule outranks_trans)
    qed
    then have "\<forall>x\<in>set (b # pre). outranks m x" using before by simp
    moreover have "b # r # rs = (b # pre) @ m # post" using split by simp
    moreover have "pick (r # rs) (Some b) = Some m" using True res by simp
    ultimately show ?thesis using after by blast
  next
    case False
    obtain pre m post where split: "b # rs = pre @ m # post"
      and res: "pick rs (Some b) = Some m"
      and before: "\<forall>x\<in>set pre. outranks m x"
      and after: "\<forall>x\<in>set post. \<not> outranks x m"
      using Cons.IH [of b] by blast
    have pk: "pick (r # rs) (Some b) = Some m" using False res by simp
    show ?thesis
    proof (cases pre)
      case Nil
      then have m: "m = b" and post: "post = rs" using split by simp_all
      have "b # r # rs = [] @ m # (r # rs)" using m by simp
      moreover have "\<forall>x\<in>set (r # rs). \<not> outranks x m" using after False m post by simp
      ultimately show ?thesis using pk by fastforce
    next
      case (Cons p pre')
      then have p: "p = b" and rs: "rs = pre' @ m # post" using split by simp_all
      have mb: "outranks m b" using before Cons p by simp
      have "outranks m r" using mb False by (rule outranks_neg)
      then have "\<forall>x\<in>set (b # r # pre'). outranks m x" using before Cons p by simp
      moreover have "b # r # rs = (b # r # pre') @ m # post" using rs by simp
      ultimately show ?thesis using pk after by blast
    qed
  qed
qed

lemma outranks_le:
  "outranks m x \<Longrightarrow> step x \<le> step m \<and> (step x = step m \<longrightarrow> confidence x \<le> confidence m)"
  by (auto simp: outranks_def)

lemma not_outranks_le:
  "\<not> outranks x m \<Longrightarrow> step x \<le> step m \<and> (step x = step m \<longrightarrow> confidence x \<le> confidence m)"
  by (auto simp: outranks_def)

text \<open>
  Claim C2.  At a token index the driver keeps, among the matches the matchers return, the
  first one that no other match outranks: every match returned before it is strictly
  outranked by it (so of two matches with equal step and confidence the earlier matcher's is
  kept), and no match returned after it outranks it.  In particular its step is the largest,
  and its confidence is the largest among the matches of that step.  With no match returned
  the driver has no best match.
\<close>

theorem best_match_selects:
  "(returned fsms tokens index = [] \<longrightarrow> best_match fsms tokens index = None)
   \<and> (returned fsms tokens index \<noteq> [] \<longrightarrow>
        (\<exists>pre m post. returned fsms tokens index = pre @ m # post
           \<and> best_match fsms tokens index = Some m
           \<and> (\<forall>x\<in>set pre. outranks m x)
           \<and> (\<forall>x\<in>set post. \<not> outranks x m)
           \<and> (\<forall>x\<in>set (returned fsms tokens index).
                 step x \<le> step m \<and> (step x = step m \<longrightarrow> confidence x \<le> confidence m))))"
proof (cases "returned fsms tokens index")
  case Nil
  then show ?thesis by (simp add: best_match_def best_match_loop_pick)
next
  case (Cons b rs)
  obtain pre m post where split: "b # rs = pre @ m # post"
    and res: "pick rs (Some b) = Some m"
    and before: "\<forall>x\<in>set pre. outranks m x"
    and after: "\<forall>x\<in>set post. \<not> outranks x m"
    using pick_first_max [of b rs] by blast
  have bm: "best_match fsms tokens index = Some m"
    using Cons res by (simp add: best_match_def best_match_loop_pick)
  have ret: "returned fsms tokens index = pre @ m # post"
    using Cons split by (simp only:)
  have le: "\<forall>x\<in>set (returned fsms tokens index).
      step x \<le> step m \<and> (step x = step m \<longrightarrow> confidence x \<le> confidence m)"
  proof
    fix x
    assume "x \<in> set (returned fsms tokens index)"
    then have "x \<in> set pre \<or> x = m \<or> x \<in> set post"
      unfolding ret by (simp only: set_append list.set Un_iff insert_iff empty_iff)
    then show "step x \<le> step m \<and> (step x = step m \<longrightarrow> confidence x \<le> confidence m)"
      using before after outranks_le [of m x] not_outranks_le [of x m] by blast
  qed
  have "\<exists>pre m post. returned fsms tokens index = pre @ m # post
           \<and> best_match fsms tokens index = Some m
           \<and> (\<forall>x\<in>set pre. outranks m x)
           \<and> (\<forall>x\<in>set post. \<not> outranks x m)
           \<and> (\<forall>x\<in>set (returned fsms tokens index).
                 step x \<le> step m \<and> (step x = step m \<longrightarrow> confidence x \<le> confidence m))"
    by (intro exI [of _ pre] exI [of _ m] exI [of _ post] conjI ret bm before after le)
  then show ?thesis using Cons by simp
qed


lemma qnh_spoken_lower:
  "lower ''qnh'' = ''qnh''" "upper ''qnh'' = ''QNH''"
  by (simp_all add: char_defs)

lemma qnh_spoken_digits:
  "token_to_digit ''one'' = Some ''1''" "token_to_digit ''zero'' = Some ''0''"
  "token_to_digit ''three'' = Some ''3''"
  "isdigit ''one'' = False" "isdigit ''zero'' = False" "isdigit ''three'' = False"
  by (simp_all add: char_defs helper_defs)

lemma qnh_spoken_callsign:
  "CallsignFSM_match qnh_spoken_tokens 0 =
     Inr (Some (mk_match CALLSIGN ''qnh one zero one three'' ''QNH1013'' ''QNH 1 0 1 3'' 0.90 5))"
  by (simp add: qnh_spoken_tokens_def CallsignFSM_match_def Let_def qnh_spoken_lower
      qnh_spoken_digits ICAO_MIX_RE_def ICAO_CODE_RE_def digits_then_end_def dollar_def
      is_AZ_def is_dec_def is_space_def cp_def slice_def dict_get_def AIRLINE_ICAO_def
      spoken_digits_def)

lemma qnh_spoken_qnh:
  "QNHFSM_match qnh_spoken_tokens 0 =
     Inr (Some (mk_match QNH ''qnh one zero one three'' ''QNH 1013'' ''qnh one zero one three'' 0.90 5))"
  by (simp add: qnh_spoken_tokens_def QNHFSM_match_def Let_def qnh_spoken_lower
      qnh_spoken_digits QNH_RE_def is_dec_def cp_def slice_def digits_to_spoken_def
      isdigit_char_def int_char_def subscript_def NUMBER_REVERSE_def)

lemma qnh_spoken_others:
  "FlightLevelFSM_match qnh_spoken_tokens 0 = Inr None"
  "RunwayFSM_match qnh_spoken_tokens 0 = Inr None"
  "TaxiwayFSM_match qnh_spoken_tokens 0 = Inr None"
  "HeadingFSM_match qnh_spoken_tokens 0 = Inr None"
  "FrequencyFSM_match qnh_spoken_tokens 0 = Inr None"
  "ValueFSM_match qnh_spoken_tokens 0 = Inr None"
  by (simp_all add: qnh_spoken_tokens_def matcher_defs pattern_defs Let_def qnh_spoken_lower
      slice_def is_AZ_def is_dec_def is_space_def cp_def token_to_digit_def isdigit_def
      isdigit_char_def NUMBER_WORDS_def)

theorem best_match_selects_witness:
  "returned DEFAULT_FSMS qnh_spoken_tokens 0 =
     [mk_match CALLSIGN ''qnh one zero one three'' ''QNH1013'' ''QNH 1 0 1 3'' 0.90 5,
      mk_match QNH ''qnh one zero one three'' ''QNH 1013'' ''qnh one zero one three'' 0.90 5]
   \<and> best_match DEFAULT_FSMS qnh_spoken_tokens 0 =
       Some (mk_match CALLSIGN ''qnh one zero one three'' ''QNH1013'' ''QNH 1 0 1 3'' 0.90 5)
   \<and> (\<exists>pre m post. returned DEFAULT_FSMS qnh_spoken_tokens 0 = pre @ m # post
           \<and> best_match DEFAULT_FSMS qnh_spoken_tokens 0 = Some m
           \<and> (\<forall>x\<in>set pre. outranks m x)
           \<and> (\<forall>x\<in>set post. \<not> outranks x m))"
proof -
  have r: "returned DEFAULT_FSMS qnh_spoken_tokens 0 =
     [mk_match CALLSIGN ''qnh one zero one three'' ''QNH1013'' ''QNH 1 0 1 3'' 0.90 5,
      mk_match QNH ''qnh one zero one three'' ''QNH 1013'' ''qnh one zero one three'' 0.90 5]"
    by (simp add: returned_def DEFAULT_FSMS_def map_filter_simps qnh_spoken_callsign
        qnh_spoken_qnh qnh_spoken_others)
  have b: "best_match DEFAULT_FSMS qnh_spoken_tokens 0 =
       Some (mk_match CALLSIGN ''qnh one zero one three'' ''QNH1013'' ''QNH 1 0 1 3'' 0.90 5)"
    by (simp add: best_match_def DEFAULT_FSMS_def qnh_spoken_callsign
        qnh_spoken_qnh qnh_spoken_others tuple_gt_def mk_match_def)
  have ne: "returned DEFAULT_FSMS qnh_spoken_tokens 0 \<noteq> []"
    unfolding r by simp
  show ?thesis using best_match_selects [of DEFAULT_FSMS qnh_spoken_tokens 0] ne r b by blast
qed

lemma loop_body_in_range:
  assumes "i < length tokens"
  shows "loop_body fsms tokens mode (i, out) =
     Inr (case best_match fsms tokens i of
            None \<Rightarrow> (i + 1, out @ [tokens ! i])
          | Some b \<Rightarrow> (i + nat (max 1 (step b)), out @ [render (entity b) mode]))"
  using assms by (simp add: loop_body_def getitem_def split: option.split)

lemma run_loop_enough:
  "length tokens - fst st \<le> n \<Longrightarrow>
     \<exists>res. run_loop n fsms tokens mode st = Some (Inr res)
          \<and> parse_loop fsms tokens mode st = Inr res"
proof (induction n arbitrary: st)
  case 0
  obtain i out where st: "st = (i, out)" by (cases st)
  then have "\<not> i < length tokens" using 0 by simp
  then show ?case using st by (simp add: parse_loop.simps)
next
  case (Suc n)
  obtain i out where st: "st = (i, out)" by (cases st)
  show ?case
  proof (cases "i < length tokens")
    case False
    then show ?thesis using st by (simp add: parse_loop.simps)
  next
    case True
    obtain st' where body: "loop_body fsms tokens mode (i, out) = Inr st'"
      using loop_body_in_range [OF True] by blast
    have "i < fst st'"
      using loop_body_advances [of fsms tokens mode i out "fst st'" "snd st'"] body by simp
    then have "length tokens - fst st' \<le> n" using Suc.prems st by simp
    then obtain res where "run_loop n fsms tokens mode st' = Some (Inr res)"
      and "parse_loop fsms tokens mode st' = Inr res"
      using Suc.IH by blast
    then show ?thesis using st True body by (simp add: parse_loop.simps)
  qed
qed

text \<open>
  Claim C6.  One iteration at a cursor inside the token list moves the cursor by exactly 1
  after the raw token when nothing matched, and by \<open>max(1, step)\<close> after the rendered
  entity on a match; the cursor strictly increases.  The loop ends: \<open>len(tokens) - i\<close>
  iterations are enough to reach the end from cursor \<open>i\<close>, and give the result of the loop.
\<close>

theorem scan_loop_terminates:
  "(i < length tokens \<longrightarrow>
      loop_body fsms tokens mode (i, out) =
        Inr (case best_match fsms tokens i of
               None \<Rightarrow> (i + 1, out @ [tokens ! i])
             | Some b \<Rightarrow> (i + nat (max 1 (step b)), out @ [render (entity b) mode]))
      \<and> (\<forall>st'. loop_body fsms tokens mode (i, out) = Inr st' \<longrightarrow> i < fst st'))
   \<and> (\<exists>res. run_loop (length tokens - i) fsms tokens mode (i, out) = Some (Inr res)
           \<and> parse_loop fsms tokens mode (i, out) = Inr res)"
proof -
  have adv: "\<forall>st'. loop_body fsms tokens mode (i, out) = Inr st' \<longrightarrow> i < fst st'"
  proof (intro allI impI)
    fix st'
    assume "loop_body fsms tokens mode (i, out) = Inr st'"
    then show "i < fst st'"
      using loop_body_advances [of fsms tokens mode i out "fst st'" "snd st'"] by simp
  qed
  have fin: "\<exists>res. run_loop (length tokens - i) fsms tokens mode (i, out) = Some (Inr res)
           \<and> parse_loop fsms tokens mode (i, out) = Inr res"
    using run_loop_enough [of tokens "(i, out)" "length tokens - i" fsms mode] by simp
  show ?thesis using loop_body_in_range [of i tokens fsms mode out] adv fin by blast
qed

theorem scan_loop_terminates_witness:
  "0 < length [''runway'', ''34'', ''l'']
   \<and> loop_body [RunwayFSM_match] [''runway'', ''34'', ''l''] CODE (0, []) = Inr (2, [''RWY 34''])
   \<and> run_loop 3 [RunwayFSM_match] [''runway'', ''34'', ''l''] CODE (0, [])
        = Some (Inr [''RWY 34'', ''l''])
   \<and> parse_loop [RunwayFSM_match] [''runway'', ''34'', ''l''] CODE (0, [])
        = Inr [''RWY 34'', ''l'']"
proof -
  let ?ts = "[''runway'', ''34'', ''l'']"
  have m0: "RunwayFSM_match ?ts 0
      = Inr (Some (mk_match RUNWAY ''runway 34'' ''RWY 34'' ''runway three four'' 0.95 2))"
    by (simp add: char_defs helper_defs pattern_defs matcher_defs Let_def)
  have m2: "RunwayFSM_match ?ts 2 = Inr None"
    by (simp add: char_defs helper_defs pattern_defs matcher_defs Let_def)
  have b0: "best_match [RunwayFSM_match] ?ts 0
      = Some (mk_match RUNWAY ''runway 34'' ''RWY 34'' ''runway three four'' 0.95 2)"
    by (simp add: best_match_def m0)
  have b2: "best_match [RunwayFSM_match] ?ts 2 = None"
    by (simp add: best_match_def m2)
  have h: "0 < length ?ts" by simp
  have body: "loop_body [RunwayFSM_match] ?ts CODE (0, []) = Inr (2, [''RWY 34''])"
    using scan_loop_terminates [of 0 ?ts "[RunwayFSM_match]" CODE "[]"] h
    by (simp add: b0 mk_match_def render_def)
  have body2: "loop_body [RunwayFSM_match] ?ts CODE (2, [''RWY 34'']) = Inr (3, [''RWY 34'', ''l''])"
    by (simp add: loop_body_def b2 getitem_def)
  have run: "run_loop 3 [RunwayFSM_match] ?ts CODE (0, []) = Some (Inr [''RWY 34'', ''l''])"
    by (simp add: numeral_3_eq_3 body body2)
  have len: "length ?ts - 0 = 3" by simp
  obtain res where r1: "run_loop 3 [RunwayFSM_match] ?ts CODE (0, []) = Some (Inr res)"
    and r2: "parse_loop [RunwayFSM_match] ?ts CODE (0, []) = Inr res"
    using scan_loop_terminates [of 0 ?ts "[RunwayFSM_match]" CODE "[]"] unfolding len by blast
  have "res = [''RWY 34'', ''l'']" using r1 [unfolded run] by simp
  then show ?thesis using h body run r2 by simp
qed

lemma parse_loop_returns: "\<exists>res. parse_loop fsms tokens mode st = Inr res"
  using run_loop_enough [of tokens st "length tokens - fst st" fsms mode] by blast

text \<open>
  Claim C1.  For every list of matchers of the interface's type (also matchers that raise),
  every text and every mode, \<open>parse\<close> returns a string: no exception leaves it.
\<close>

theorem parse_total: "\<exists>s. parse fsms text mode = Inr s"
  using parse_loop_returns [of fsms "tokenize (normalize_text text)" mode "(0, [])"]
  by (auto simp: parse_def)

theorem parse_total_witness:
  "(\<exists>s. parse DEFAULT_FSMS ''### @@ ???'' CODE = Inr s)
   \<and> parse DEFAULT_FSMS [] SPOKEN = Inr []
   \<and> parse DEFAULT_FSMS ''### @@ ???'' CODE = Inr []
   \<and> parse DEFAULT_FSMS '' ,;: '' CODE = Inr []"
proof -
  have a: "parse DEFAULT_FSMS [] SPOKEN = Inr []"
    by (simp add: char_defs tokenizer_defs driver_defs)
  have b: "parse DEFAULT_FSMS ''### @@ ???'' CODE = Inr []"
    by (simp add: char_defs tokenizer_defs driver_defs)
  have c: "parse DEFAULT_FSMS '' ,;: '' CODE = Inr []"
    by (simp add: char_defs tokenizer_defs driver_defs)
  show ?thesis using parse_total [of DEFAULT_FSMS "''### @@ ???''" CODE] a b c by simp
qed

lemma best_match_loop_recover:
  "best_match_loop (map no_match_on_fault fsms) tokens index best
     = best_match_loop fsms tokens index best"
proof (induction fsms arbitrary: best)
  case Nil
  then show ?case by simp
next
  case (Cons fsm fsms)
  have eq: "(case no_match_on_fault fsm tokens index of Inl e \<Rightarrow> None | Inr r \<Rightarrow> r)
      = (case fsm tokens index of Inl e \<Rightarrow> None | Inr r \<Rightarrow> r)"
    by (simp add: no_match_on_fault_def split: sum.split)
  show ?case
    by (simp only: list.map best_match_loop.simps eq Cons.IH)
qed

lemma loop_body_recover:
  "loop_body (map no_match_on_fault fsms) tokens mode st = loop_body fsms tokens mode st"
  by (simp add: loop_body_def best_match_def best_match_loop_recover)

lemma parse_loop_recover:
  "parse_loop (map no_match_on_fault fsms) tokens mode st = parse_loop fsms tokens mode st"
proof (induction fsms tokens mode st rule: parse_loop.induct)
  case (1 fsms tokens mode i out)
  show ?case
  proof (cases "i < length tokens")
    case False
    then show ?thesis by (simp add: parse_loop.simps)
  next
    case True
    show ?thesis
    proof (cases "loop_body fsms tokens mode (i, out)")
      case (Inl e)
      then show ?thesis using True by (simp add: loop_body_recover parse_loop.simps)
    next
      case (Inr st')
      then show ?thesis using True "1.IH" [OF True Inr]
        by (simp add: loop_body_recover parse_loop.simps)
    qed
  qed
qed

text \<open>
  Claim C7.  A matcher that raises at a position counts as one that returns no match there:
  \<open>parse\<close> gives the same result when every matcher, or any single matcher of the list, is
  replaced by the matcher that returns \<open>None\<close> where the original raises, and that result
  is a string, never the exception.
\<close>

theorem faulty_matcher_is_no_match:
  "parse fsms text mode = parse (map no_match_on_fault fsms) text mode
   \<and> parse (pre @ fsm # post) text mode = parse (pre @ no_match_on_fault fsm # post) text mode
   \<and> (\<exists>s. parse fsms text mode = Inr s)"
proof -
  have all: "\<And>fs. parse fs text mode = parse (map no_match_on_fault fs) text mode"
    by (simp add: parse_def parse_loop_recover)
  have idem: "no_match_on_fault (no_match_on_fault fsm) = no_match_on_fault fsm"
    by (rule ext, rule ext) (simp add: no_match_on_fault_def split: sum.split)
  have "map no_match_on_fault (pre @ no_match_on_fault fsm # post)
      = map no_match_on_fault (pre @ fsm # post)"
    by (simp add: idem)
  then have one: "parse (pre @ fsm # post) text mode
      = parse (pre @ no_match_on_fault fsm # post) text mode"
    using all [of "pre @ fsm # post"] all [of "pre @ no_match_on_fault fsm # post"] by simp
  have "\<exists>s. parse fsms text mode = Inr s"
    using parse_loop_returns [of fsms "tokenize (normalize_text text)" mode "(0, [])"]
    by (auto simp: parse_def)
  then show ?thesis using all [of fsms] one by blast
qed

lemma heading_superscript_raises:
  "HeadingFSM_match [''heading'', [CHR 0xB2], [CHR 0xB2]] 0 = Inl ValueError"
  by (simp add: char_defs helper_defs pattern_defs matcher_defs Let_def)

lemma heading_superscript_tokens:
  "tokenize (normalize_text (''heading '' @ [CHR 0xB2, CHR '' '', CHR 0xB2]))
     = [''heading'', [CHR 0xB2], [CHR 0xB2]]"
  by (simp add: char_defs tokenizer_defs)

theorem faulty_matcher_is_no_match_witness:
  "HeadingFSM_match [''heading'', [CHR 0xB2], [CHR 0xB2]] 0 = Inl ValueError
   \<and> parse [HeadingFSM_match] (''heading '' @ [CHR 0xB2, CHR '' '', CHR 0xB2]) SPOKEN
       = Inr (''heading '' @ [CHR 0xB2, CHR '' '', CHR 0xB2])
   \<and> parse [no_match_on_fault HeadingFSM_match] (''heading '' @ [CHR 0xB2, CHR '' '', CHR 0xB2]) SPOKEN
       = Inr (''heading '' @ [CHR 0xB2, CHR '' '', CHR 0xB2])"
proof -
  have m1: "HeadingFSM_match [''heading'', [CHR 0xB2], [CHR 0xB2]] (Suc 0) = Inr None"
    by (simp add: char_defs helper_defs pattern_defs matcher_defs Let_def)
  have m2: "HeadingFSM_match [''heading'', [CHR 0xB2], [CHR 0xB2]] (Suc (Suc 0)) = Inr None"
    by (simp add: char_defs helper_defs pattern_defs matcher_defs Let_def)
  have p: "parse [HeadingFSM_match] (''heading '' @ [CHR 0xB2, CHR '' '', CHR 0xB2]) SPOKEN
       = Inr (''heading '' @ [CHR 0xB2, CHR '' '', CHR 0xB2])"
    unfolding parse_def heading_superscript_tokens Let_def
    by (simp add: parse_loop.simps loop_body_def best_match_def getitem_def
        heading_superscript_raises m1 m2)
  show ?thesis
    using faulty_matcher_is_no_match [of "[HeadingFSM_match]"
        "''heading '' @ [CHR 0xB2, CHR '' '', CHR 0xB2]" SPOKEN "[]" HeadingFSM_match "[]"]
      heading_superscript_raises p
    by simp
qed


section \<open>Properties of the matchers\<close>

subsection \<open>Step bounds\<close>

lemma step_mk_match [simp]: "step (mk_match ty r c s conf n) = n"
  by (simp add: mk_match_def)

lemma confidence_mk_match [simp]: "confidence (mk_match ty r c s conf n) = conf"
  by (simp add: mk_match_def)

lemma collect_digits_length: "length (collect_digits n ts) \<le> length ts"
  by (induction n ts rule: collect_digits.induct) (auto split: option.splits)

lemma collect_digits_bound: "length (collect_digits n ts) \<le> n"
  by (induction n ts rule: collect_digits.induct) (auto split: option.splits)

lemma collect_all_digits_length: "length (collect_all_digits ts) \<le> length ts"
  by (induction ts) (auto split: option.splits)

lemma callsign_digits_length: "length (callsign_digits ts) \<le> length ts"
  by (induction ts) (auto split: option.splits)

lemma flight_level_nums_length: "length (flight_level_nums ts) \<le> length ts"
  by (induction ts) (auto simp: Let_def)

lemma QNH_step:
  assumes "index < length tokens" and "QNHFSM_match tokens index = Inr (Some r)"
  shows "(1 \<le> step r \<and> step r \<le> int (length tokens) - int index)"
proof -
  have len: "length (collect_digits 4 (drop (index + 1) tokens)) \<le> length tokens - (index + 1)"
    using collect_digits_length [of 4 "drop (index + 1) tokens"] by simp
  show ?thesis
    using assms len unfolding QNHFSM_match_def Let_def
    by (auto split: if_splits sum.splits)
qed


lemma Heading_step:
  assumes "index < length tokens" and "HeadingFSM_match tokens index = Inr (Some r)"
  shows "(1 \<le> step r \<and> step r \<le> int (length tokens) - int index)"
proof -
  have len: "length (collect_digits 3 (drop (index + 1) tokens)) \<le> length tokens - (index + 1)"
    using collect_digits_length [of 3 "drop (index + 1) tokens"] by simp
  show ?thesis
    using assms len unfolding HeadingFSM_match_def Let_def
    by (auto split: if_splits sum.splits)
qed

lemma Taxiway_step:
  assumes "index < length tokens" and "TaxiwayFSM_match tokens index = Inr (Some r)"
  shows "(1 \<le> step r \<and> step r \<le> int (length tokens) - int index)"
proof -
  have len: "length (collect_digits 2 (drop (index + 1 + 1) tokens)) \<le> length tokens - (index + 1 + 1)"
    using collect_digits_length [of 2 "drop (index + 1 + 1) tokens"] by simp
  show ?thesis
    using assms len unfolding TaxiwayFSM_match_def Let_def
    by (auto split: if_splits sum.splits)
qed

lemma Runway_after_prefix_step:
  assumes "index < length tokens" and "RunwayFSM_match_after_prefix tokens index = Inr (Some r)"
  shows "(1 \<le> step r \<and> step r \<le> int (length tokens) - int index)"
  using assms unfolding RunwayFSM_match_after_prefix_def Let_def
  by (auto split: if_splits sum.splits option.splits)

lemma Runway_step:
  assumes "index < length tokens" and "RunwayFSM_match tokens index = Inr (Some r)"
  shows "(1 \<le> step r \<and> step r \<le> int (length tokens) - int index)"
proof (cases "lower (tokens ! index) \<in> set RW_PREFIX")
  case True
  then have "RunwayFSM_match_after_prefix tokens index = Inr (Some r)"
    using assms by (simp add: RunwayFSM_match_def)
  then show ?thesis using assms(1) by (rule Runway_after_prefix_step [rotated])
next
  case False
  then show ?thesis
    using assms unfolding RunwayFSM_match_def Let_def
    by (auto split: if_splits sum.splits)
qed

lemma Frequency_step:
  assumes "index < length tokens" and "FrequencyFSM_match tokens index = Inr (Some r)"
  shows "(1 \<le> step r \<and> step r \<le> int (length tokens) - int index)"
proof -
  define start where "start = (if lower (tokens ! index) \<in> set FREQ_PREFIX \<and> index + 1 < length tokens
                      then index + 1 else index)"
  define major where "major = collect_digits 4 (drop start tokens)"
  define minor where "minor = collect_digits 3 (drop (start + length major + 1) tokens)"
  have st: "index \<le> start" "start < length tokens" "start \<le> index + 1"
    using assms(1) by (auto simp: start_def)
  have l2: "length minor \<le> length tokens - (start + length major + 1)"
    using collect_digits_length [of 3 "drop (start + length major + 1) tokens"]
    by (simp add: minor_def)
  have res: "FrequencyFSM_match tokens index =
         (if FREQ_RE (tokens ! start) then
           (case num_str_to_spoken (tokens ! start) of
              Inl e \<Rightarrow> Inl e
            | Inr sp \<Rightarrow>
                Inr (Some (mk_match FREQUENCY (join '' '' (slice tokens index (start + 1)))
                   (tokens ! start) sp 0.95 (int start - int index + 1))))
         else
           (if 2 \<le> length major \<and> start + length major < length tokens
                \<and> lower (tokens ! (start + length major)) \<in> set DECIMAL_WORDS
            then
               (if minor \<noteq> [] then
                  (case num_str_to_spoken (concat major @ ''.'' @ concat minor) of
                    Inl e \<Rightarrow> Inl e
                  | Inr sp \<Rightarrow>
                      Inr (Some (mk_match FREQUENCY
                        (join '' '' (slice tokens index (start + length major + 1 + length minor)))
                        (concat major @ ''.'' @ concat minor) sp 0.90
                        (int (start + length major + 1 + length minor) - int index))))
               else Inr None)
            else Inr None))"
    using assms(1) unfolding FrequencyFSM_match_def Let_def start_def major_def minor_def
    by simp
  show ?thesis
    using assms(2) st l2 unfolding res
    by (auto split: if_splits sum.splits)
qed


lemma Value_step:
  assumes "index < length tokens" and "ValueFSM_match tokens index = Inr (Some r)"
  shows "(1 \<le> step r \<and> step r \<le> int (length tokens) - int index)"
proof -
  define major where "major = collect_digits 6 (drop index tokens)"
  define j where "j = index + length major"
  define has_dec where "has_dec = (j < length tokens \<and> lower (tokens ! j) \<in> set DECIMAL_WORDS)"
  define frac where "frac = (if has_dec then collect_digits 6 (drop (j + 1) tokens) else [])"
  define j' where "j' = (if has_dec then j + 1 + length frac else j)"
  have "length frac \<le> length tokens - (j + 1)"
    using collect_digits_length [of 6 "drop (j + 1) tokens"] by (simp add: frac_def)
  then have j': "index \<le> j'" by (simp add: j'_def j_def)
  have res: "ValueFSM_match tokens index =
     (if index + 1 < length tokens \<and> NUM_RE (tokens ! index)
              \<and> map_of UNIT (lower (tokens ! (index + 1))) \<noteq> None
      then
         (case subscript UNIT (lower (tokens ! (index + 1))) of
           Inl e \<Rightarrow> Inl e
         | Inr (u_code, u_spk) \<Rightarrow>
              (case num_str_to_spoken (tokens ! index) of
                Inl e \<Rightarrow> Inl e
              | Inr sp \<Rightarrow>
                  Inr (Some (mk_match VALUE (join '' '' (slice tokens index (index + 2)))
                     (tokens ! index @ '' '' @ u_code) (sp @ '' '' @ u_spk) 0.90 2))))
      else
         if major = [] then Inr None
         else
            if j' < length tokens \<and> map_of UNIT (lower (tokens ! j')) \<noteq> None then
              (case subscript UNIT (lower (tokens ! j')) of
                 Inl e \<Rightarrow> Inl e
               | Inr (u_code, u_spk) \<Rightarrow>
                    (case num_str_to_spoken
                        (concat major @ (if frac \<noteq> [] then ''.'' @ concat frac else [])) of
                      Inl e \<Rightarrow> Inl e
                    | Inr sp \<Rightarrow>
                        Inr (Some (mk_match VALUE (join '' '' (slice tokens index (j' + 1)))
                           ((concat major @ (if frac \<noteq> [] then ''.'' @ concat frac else []))
                              @ '' '' @ u_code) (sp @ '' '' @ u_spk)
                                     0.85 (int (j' + 1) - int index)))))
            else Inr None)"
    using assms(1) unfolding ValueFSM_match_def Let_def major_def j_def has_dec_def frac_def j'_def
    by simp
  show ?thesis
    using assms(2) j' unfolding res
    by (auto split: if_splits sum.splits prod.splits)
qed

lemma slice_eq_length: "slice xs i j = ys \<Longrightarrow> length ys \<le> length xs - i"
  by (auto simp: slice_def)

lemma callsign_airlines_step:
  assumes "callsign_airlines al tokens index = Inr (Some r)"
  shows "(1 \<le> step r \<and> step r \<le> int (length tokens) - int index)"
  using assms
proof (induction al)
  case Nil
  then show ?case by simp
next
  case (Cons a al)
  obtain icao name where a: "a = (icao, name)" by (cases a)
  define nt where "nt = split name"
  define digits where "digits = collect_all_digits (drop (index + length nt) tokens)"
  show ?case
  proof (cases "slice tokens index (index + length nt) = nt \<and> digits \<noteq> []")
    case False
    then have "callsign_airlines (a # al) tokens index = callsign_airlines al tokens index"
      unfolding a by (auto simp: Let_def nt_def digits_def)
    then show ?thesis using Cons by simp
  next
    case True
    then have r: "r = mk_match CALLSIGN (join '' '' (slice tokens index (index + length nt + length digits)))
        (icao @ concat digits) (name @ '' '' @ spoken_digits (concat digits)) 0.85
        (int (index + length nt + length digits) - int index)"
      using Cons.prems unfolding a by (simp add: Let_def nt_def digits_def)
    have l2: "length digits \<le> length (drop (index + length nt) tokens)"
      unfolding digits_def by (rule collect_all_digits_length)
    have l3: "0 < length digits" using True by simp
    have "index + length nt + length digits \<le> length tokens"
      using l2 l3 unfolding length_drop by arith
    then have "int (length nt) + int (length digits) \<le> int (length tokens) - int index"
      by linarith
    moreover have "1 \<le> int (length nt) + int (length digits)" using l3 by linarith
    ultimately show ?thesis unfolding r by simp
  qed
qed

lemma Callsign_step:
  assumes "index < length tokens" and "CallsignFSM_match tokens index = Inr (Some r)"
  shows "(1 \<le> step r \<and> step r \<le> int (length tokens) - int index)"
proof (cases "ICAO_MIX_RE (upper (tokens ! index))")
  case (Some p)
  then show ?thesis
    using assms unfolding CallsignFSM_match_def Let_def
    by (auto split: prod.splits)
next
  case None
  define digits where "digits = (if ICAO_CODE_RE (upper (tokens ! index))
                            then callsign_digits (drop (index + 1) tokens) else [])"
  have l: "length digits \<le> length tokens - (index + 1)"
    using callsign_digits_length [of "drop (index + 1) tokens"] by (simp add: digits_def)
  have res: "CallsignFSM_match tokens index =
     (if ICAO_CODE_RE (upper (tokens ! index)) \<and> digits \<noteq> [] then
        Inr (Some (mk_match CALLSIGN (join '' '' (slice tokens index (index + 1 + length digits)))
               (upper (tokens ! index) @ concat digits)
               (dict_get AIRLINE_ICAO (upper (tokens ! index)) (upper (tokens ! index))
                  @ '' '' @ spoken_digits (concat digits)) 0.90
               (int (index + 1 + length digits) - int index)))
      else callsign_airlines AIRLINE_ICAO tokens index)"
    using assms(1) None unfolding CallsignFSM_match_def Let_def digits_def by simp
  show ?thesis
  proof (cases "ICAO_CODE_RE (upper (tokens ! index)) \<and> digits \<noteq> []")
    case True
    then have "step r = int (index + 1 + length digits) - int index"
      using assms(2) unfolding res by auto
    moreover have "0 < length digits" using True by simp
    ultimately show ?thesis using l assms(1) by (simp add:)
  next
    case False
    then have "callsign_airlines AIRLINE_ICAO tokens index = Inr (Some r)"
      using assms(2) unfolding res by (simp split: if_splits)
    then show ?thesis by (rule callsign_airlines_step)
  qed
qed

lemma FlightLevel_step:
  assumes "index < length tokens" and "FlightLevelFSM_match tokens index = Inr (Some r)"
  shows "(1 \<le> step r \<and> step r \<le> int (length tokens) - int index)"
proof (cases "FL_RE (filter (\<lambda>c. c \<noteq> CHR '' '') (tokens ! index))")
  case (Some fl)
  then show ?thesis
    using assms unfolding FlightLevelFSM_match_def Let_def
    by (auto split: sum.splits)
next
  case None
  define nums where "nums = flight_level_nums (drop (index + 2) tokens)"
  have l: "length nums \<le> length tokens - (index + 2)"
    using flight_level_nums_length [of "drop (index + 2) tokens"] by (simp add: nums_def)
  have sl: "slice tokens index (index + 2) = [''flight'', ''level''] \<Longrightarrow> index + 2 \<le> length tokens"
    using slice_eq_length [of tokens index "index + 2" "[''flight'', ''level'']"] assms(1) by simp
  show ?thesis
    using assms None l sl
    unfolding FlightLevelFSM_match_def Let_def nums_def [symmetric]
    by (auto split: if_splits sum.splits simp del: sequence.simps)
qed

text \<open>
  Claim C5.  Whenever one of the eight matchers returns a match at an index inside the
  token list, the step of the match is at least 1 and at most the number of tokens from the
  index to the end.
\<close>

theorem matcher_step_in_range:
  assumes "fsm \<in> set DEFAULT_FSMS"
    and "index < length tokens"
    and "fsm tokens index = Inr (Some r)"
  shows "1 \<le> step r \<and> step r \<le> int (length tokens) - int index"
proof -
  consider "fsm = CallsignFSM_match" | "fsm = FlightLevelFSM_match" | "fsm = RunwayFSM_match"
    | "fsm = TaxiwayFSM_match" | "fsm = HeadingFSM_match" | "fsm = FrequencyFSM_match"
    | "fsm = QNHFSM_match" | "fsm = ValueFSM_match"
    using assms(1) unfolding DEFAULT_FSMS_def by auto
  then show ?thesis
  proof cases
    case 1 then show ?thesis using assms(2,3) Callsign_step by blast
  next
    case 2 then show ?thesis using assms(2,3) FlightLevel_step by blast
  next
    case 3 then show ?thesis using assms(2,3) Runway_step by blast
  next
    case 4 then show ?thesis using assms(2,3) Taxiway_step by blast
  next
    case 5 then show ?thesis using assms(2,3) Heading_step by blast
  next
    case 6 then show ?thesis using assms(2,3) Frequency_step by blast
  next
    case 7 then show ?thesis using assms(2,3) QNH_step by blast
  next
    case 8 then show ?thesis using assms(2,3) Value_step by blast
  qed
qed

theorem matcher_step_in_range_witness:
  "QNHFSM_match \<in> set DEFAULT_FSMS
   \<and> 0 < length qnh_spoken_tokens
   \<and> QNHFSM_match qnh_spoken_tokens 0 =
       Inr (Some (mk_match QNH ''qnh one zero one three'' ''QNH 1013''
                    ''qnh one zero one three'' 0.90 5))
   \<and> 1 \<le> step (mk_match QNH ''qnh one zero one three'' ''QNH 1013''
                    ''qnh one zero one three'' 0.90 5)
   \<and> step (mk_match QNH ''qnh one zero one three'' ''QNH 1013''
                    ''qnh one zero one three'' 0.90 5)
       \<le> int (length qnh_spoken_tokens) - int 0"
proof -
  have a: "QNHFSM_match \<in> set DEFAULT_FSMS" by (simp add: DEFAULT_FSMS_def)
  have b: "0 < length qnh_spoken_tokens" by (simp add: qnh_spoken_tokens_def)
  show ?thesis
    using a b qnh_spoken_qnh matcher_step_in_range [OF a b qnh_spoken_qnh] by simp
qed

subsection \<open>Flight level: the separated form\<close>

text \<open>
  Claim C9.  The separated form \<open>fl\<close> plus a digit token accepts a one-digit level: on the
  tokens \<open>fl 5\<close> the matcher returns flight level 5 with step 2 and confidence 0.9, while
  the compact token \<open>fl5\<close> and the spoken \<open>flight level five\<close> are rejected.
\<close>

theorem flight_level_separated_one_digit:
  "FlightLevelFSM_match [''fl'', ''5''] 0 =
     Inr (Some (mk_match FLIGHT_LEVEL ''fl 5'' ''FL5'' ''flight level five'' 0.9 2))
   \<and> FlightLevelFSM_match [''fl5''] 0 = Inr None
   \<and> FlightLevelFSM_match [''flight'', ''level'', ''five''] 0 = Inr None"
  by (simp add: FlightLevelFSM_match_def Let_def char_defs helper_defs pattern_defs)

subsection \<open>Runway without a prefix\<close>

lemma cp_inj: "cp a = cp b \<Longrightarrow> a = b"
  by (simp add: cp_def)

lemma cp_upper_char:
  assumes "has_upper_case c"
  shows "\<exists>d. upper_char c = [d] \<and> cp d + 32 = cp c"
proof (cases c)
  case (Char b0 b1 b2 b3 b4 b5 b6 b7)
  have "b5"
    using assms of_bool_le1 [of b0] of_bool_le1 [of b1] of_bool_le1 [of b2] of_bool_le1 [of b3]
      of_bool_le1 [of b4]
    unfolding Char has_upper_case_def is_az_def cp_def
    by (cases b5; cases b6; cases b7;
        simp del: of_bool_eq_0_iff of_bool_eq_1_iff of_bool_less_eq_iff)
  then show ?thesis using assms unfolding Char
    by (simp add: upper_char_def cp_def)
qed

lemma upper_char_nonempty: "upper_char c \<noteq> []"
  by (simp add: upper_char_def)

lemma upper_char_dec:
  assumes "is_dec d" and "d \<in> set (upper_char c)"
  shows "upper_char c = [d] \<and> c = d"
proof (cases "has_upper_case c")
  case True
  then obtain e where e: "upper_char c = [e]" "cp e + 32 = cp c" using cp_upper_char by blast
  then have "d = e" using assms(2) by simp
  then have "cp c \<le> 89" using e assms(1) by (simp add: is_dec_def)
  then show ?thesis using True by (auto simp: has_upper_case_def is_az_def)
next
  case False
  show ?thesis
  proof (cases "cp c = 223")
    case True
    then have "d = CHR ''S''" using False assms(2) by (simp add: upper_char_def)
    then show ?thesis using assms(1) by (simp add: is_dec_def cp_def)
  next
    case False
    then show ?thesis using \<open>\<not> has_upper_case c\<close> assms(2) by (simp add: upper_char_def)
  qed
qed

lemma upper_char_side:
  assumes "d \<in> set ''LRC''" and "d \<in> set (upper_char c)"
  shows "upper_char c = [d] \<and> c \<in> set ''LRClrc''"
proof (cases "has_upper_case c")
  case True
  then obtain e where e: "upper_char c = [e]" "cp e + 32 = cp c" using cp_upper_char by blast
  then have de: "d = e" using assms(2) by simp
  have "cp c = cp (CHR ''l'') \<or> cp c = cp (CHR ''r'') \<or> cp c = cp (CHR ''c'')"
    using assms(1) e(2) de by (auto simp: cp_def)
  then have "c = CHR ''l'' \<or> c = CHR ''r'' \<or> c = CHR ''c''"
    using cp_inj by blast
  then show ?thesis using e(1) de by auto
next
  case False
  show ?thesis
  proof (cases "cp c = 223")
    case True
    then have "d = CHR ''S''" using False assms(2) by (simp add: upper_char_def)
    then show ?thesis using assms(1) by simp
  next
    case False
    then have "upper_char c = [c]" using \<open>\<not> has_upper_case c\<close> by (simp add: upper_char_def)
    then show ?thesis using assms by auto
  qed
qed

lemma upper_Cons: "upper (c # cs) = upper_char c @ upper cs"
  by (simp add: upper_def)

lemma upper_Nil_iff: "upper s = [] \<longleftrightarrow> s = []"
  by (cases s) (simp_all add: upper_def upper_char_nonempty)

lemma upper_head_dec:
  assumes "upper s = a # rest" and "is_dec a"
  shows "\<exists>cs. s = a # cs \<and> upper cs = rest"
proof (cases s)
  case Nil
  then show ?thesis using assms(1) by (simp add: upper_def)
next
  case (Cons c cs)
  have "upper_char c @ upper cs = a # rest" using assms(1) Cons by (simp add: upper_Cons)
  moreover from this have "a \<in> set (upper_char c)"
    using upper_char_nonempty [of c] by (cases "upper_char c") auto
  then have "upper_char c = [a] \<and> c = a" using assms(2) upper_char_dec by blast
  ultimately show ?thesis using Cons by auto
qed

lemma upper_head_side:
  assumes "upper s = [x]" and "x \<in> set ''LRC''"
  shows "\<exists>c. s = [c] \<and> c \<in> set ''LRClrc''"
proof (cases s)
  case Nil
  then show ?thesis using assms(1) by (simp add: upper_def)
next
  case (Cons c cs)
  have eq: "upper_char c @ upper cs = [x]" using assms(1) Cons by (simp add: upper_Cons)
  then have "x \<in> set (upper_char c)"
    using upper_char_nonempty [of c] by (cases "upper_char c") auto
  then have u: "upper_char c = [x] \<and> c \<in> set ''LRClrc''" using assms(2) upper_char_side by blast
  then have "upper cs = []" using eq by simp
  then have "cs = []" by (simp add: upper_Nil_iff)
  then show ?thesis using Cons u by simp
qed

lemma upper_dec_char: "is_dec c \<Longrightarrow> upper_char c = [c]"
  by (auto simp: upper_char_def has_upper_case_def is_az_def is_dec_def)

lemma length_3_cases: "length xs = 3 \<Longrightarrow> \<exists>a b c. xs = [a, b, c]"
  by (auto simp: numeral_3_eq_3 length_Suc_conv)

lemma tight_iff_compact: "RW_TIGHT_RE (upper t) \<longleftrightarrow> compact_runway_token t"
proof
  assume tight: "RW_TIGHT_RE (upper t)"
  then obtain a b x where u: "upper t = [a, b, x]"
    using length_3_cases [of "upper t"] unfolding RW_TIGHT_RE_def by blast
  have ab: "is_dec a" "is_dec b" and x: "x \<in> set ''LRC''"
    using tight unfolding RW_TIGHT_RE_def u by simp_all
  obtain s1 where s1: "t = a # s1" "upper s1 = [b, x]" using upper_head_dec [OF u ab(1)] by blast
  obtain s2 where s2: "s1 = b # s2" "upper s2 = [x]" using upper_head_dec [OF s1(2) ab(2)] by blast
  obtain c where c: "s2 = [c]" "c \<in> set ''LRClrc''" using upper_head_side [OF s2(2) x] by blast
  show "compact_runway_token t"
    using s1(1) s2(1) c ab by (simp add: compact_runway_token_def)
next
  assume "compact_runway_token t"
  then obtain a b c where t: "t = [a, b, c]"
    using length_3_cases [of t] unfolding compact_runway_token_def by blast
  have ab: "is_dec a" "is_dec b" and c: "c \<in> set ''LRClrc''"
    using \<open>compact_runway_token t\<close> unfolding compact_runway_token_def t by simp_all
  have "upper_char c = ''L'' \<or> upper_char c = ''R'' \<or> upper_char c = ''C''"
    using c by (auto simp: upper_char_def has_upper_case_def is_az_def cp_def)
  then show "RW_TIGHT_RE (upper t)"
    using ab unfolding t
    by (auto simp: upper_def upper_dec_char RW_TIGHT_RE_def)
qed


lemma sequence_all_Inr:
  assumes "\<forall>x\<in>set xs. \<exists>v. f x = Inr v"
  shows "\<exists>vs. sequence (map f xs) = Inr vs"
  using assms by (induction xs) (auto split: sum.splits)

lemma number_reverse_digit: "n < 10 \<Longrightarrow> \<exists>w. subscript NUMBER_REVERSE n = Inr w"
proof -
  assume "n < 10"
  then have "n \<in> {0, 1, 2, 3, 4, 5, 6, 7, 8, 9}" by auto
  then show ?thesis
    by (elim insertE emptyE; simp add: subscript_def NUMBER_REVERSE_def)
qed

lemma digits_to_spoken_dec:
  assumes "list_all is_dec s"
  shows "\<exists>sp. digits_to_spoken s = Inr sp"
proof -
  have each: "\<exists>v. (case int_char ch of Inl e \<Rightarrow> Inl e | Inr n \<Rightarrow> subscript NUMBER_REVERSE n) = Inr v"
    if "ch \<in> set (filter isdigit_char s)" for ch
  proof -
    have d: "is_dec ch" using that assms by (auto simp: list_all_iff)
    then have "cp ch - 48 < 10" by (auto simp: is_dec_def)
    then show ?thesis using d number_reverse_digit [of "cp ch - 48"] by (simp add: int_char_def)
  qed
  obtain vs where "sequence (map (\<lambda>ch. case int_char ch of Inl e \<Rightarrow> Inl e
        | Inr n \<Rightarrow> subscript NUMBER_REVERSE n) (filter isdigit_char s)) = Inr vs"
    using sequence_all_Inr [of "filter isdigit_char s"
        "\<lambda>ch. case int_char ch of Inl e \<Rightarrow> Inl e | Inr n \<Rightarrow> subscript NUMBER_REVERSE n"] each
    by blast
  then show ?thesis by (simp add: digits_to_spoken_def Let_def)
qed

lemma side_word: "x \<in> set ''LRC'' \<Longrightarrow> \<exists>w. subscript DIR_CODE_TO_WORD [x] = Inr w"
  by (auto simp: subscript_def DIR_CODE_TO_WORD_def)

lemma length_lower: "length (lower s) = length s"
  by (simp add: lower_def)

lemma two_chars_no_prefix: "length s = 2 \<Longrightarrow> lower s \<notin> set RW_PREFIX"
  using length_lower [of s] by (auto simp: RW_PREFIX_def)

lemma runway_no_prefix:
  assumes "index < length tokens" and "lower (tokens ! index) \<notin> set RW_PREFIX"
  shows "if compact_runway_token (tokens ! index)
         then \<exists>r. RunwayFSM_match tokens index = Inr (Some r)
                 \<and> step r = 1 \<and> confidence r = 0.75 \<and> etype (entity r) = RUNWAY
         else RunwayFSM_match tokens index = Inr None"
proof (cases "compact_runway_token (tokens ! index)")
  case False
  then have "\<not> RW_TIGHT_RE (upper (tokens ! index))" by (simp add: tight_iff_compact)
  then show ?thesis using assms False by (simp add: RunwayFSM_match_def)
next
  case True
  define t where "t = upper (tokens ! index)"
  have tight: "RW_TIGHT_RE t" using True by (simp add: tight_iff_compact t_def)
  then have "list_all is_dec (take 2 t)" and "t ! 2 \<in> set ''LRC''"
    by (simp_all add: RW_TIGHT_RE_def)
  then obtain sp w where sp: "digits_to_spoken (take 2 t) = Inr sp"
    and w: "subscript DIR_CODE_TO_WORD [t ! 2] = Inr w"
    using digits_to_spoken_dec side_word by blast
  have "RunwayFSM_match tokens index =
      Inr (Some (mk_match RUNWAY (tokens ! index) (''RWY '' @ take 2 t @ [t ! 2])
                   (''runway '' @ sp @ '' '' @ w) 0.75 1))"
    using assms tight sp w by (simp add: RunwayFSM_match_def Let_def t_def [symmetric])
  then show ?thesis using True by (simp add: mk_match_def)
qed

text \<open>
  Claim C8.  At a token that is not the prefix \<open>runway\<close> or \<open>rwy\<close> the runway matcher
  matches exactly when the token is two digits followed by the side letter L, R or C (the
  token is upper-cased first, so the letter may be in lower case), and then with step 1 and
  confidence 0.75; it returns no match otherwise.  A bare token of two digits is therefore
  never recognised as a runway.
\<close>

theorem runway_unprefixed:
  assumes "index < length tokens"
  shows "(length (tokens ! index) = 2 \<and> list_all is_dec (tokens ! index)
            \<longrightarrow> RunwayFSM_match tokens index = Inr None)
       \<and> (lower (tokens ! index) \<notin> set RW_PREFIX \<longrightarrow>
            (if compact_runway_token (tokens ! index)
             then \<exists>r. RunwayFSM_match tokens index = Inr (Some r)
                     \<and> step r = 1 \<and> confidence r = 0.75 \<and> etype (entity r) = RUNWAY
             else RunwayFSM_match tokens index = Inr None))"
proof -
  have "RunwayFSM_match tokens index = Inr None"
    if two: "length (tokens ! index) = 2"
  proof -
    have "\<not> compact_runway_token (tokens ! index)"
      using two by (simp add: compact_runway_token_def)
    then show ?thesis
      using runway_no_prefix [OF assms two_chars_no_prefix [OF two]] by simp
  qed
  then show ?thesis using runway_no_prefix [OF assms] by blast
qed

theorem runway_unprefixed_witness:
  "0 < length [''34'']
   \<and> length ([''34''] ! 0) = 2 \<and> list_all is_dec ([''34''] ! 0)
   \<and> RunwayFSM_match [''34''] 0 = Inr None
   \<and> lower ([''34L''] ! 0) \<notin> set RW_PREFIX
   \<and> compact_runway_token ([''34L''] ! 0)
   \<and> RunwayFSM_match [''34L''] 0 =
       Inr (Some (mk_match RUNWAY ''34L'' ''RWY 34L'' ''runway three four left'' 0.75 1))"
proof -
  have a: "0 < length [''34'']" by simp
  have b: "length ([''34''] ! 0) = 2 \<and> list_all is_dec ([''34''] ! 0)"
    by (simp add: is_dec_def cp_def)
  have c: "RunwayFSM_match [''34''] 0 = Inr None"
    using runway_unprefixed [OF a] b by blast
  have d: "lower ([''34L''] ! 0) \<notin> set RW_PREFIX"
    by (simp add: RW_PREFIX_def char_defs)
  have e: "compact_runway_token ([''34L''] ! 0)"
    by (simp add: compact_runway_token_def is_dec_def cp_def)
  have f: "RunwayFSM_match [''34L''] 0 =
       Inr (Some (mk_match RUNWAY ''34L'' ''RWY 34L'' ''runway three four left'' 0.75 1))"
    by (simp add: RunwayFSM_match_def Let_def char_defs helper_defs pattern_defs
        RW_PREFIX_def DIR_CODE_TO_WORD_def)
  show ?thesis using a b c d e f by simp
qed

subsection \<open>QNH: four digits\<close>

























section \<open>The scenario \<open>taxi via mike six to runway 34L\<close>\<close>

lemma taxi_tokenize:
  "tokenize (normalize_text ''taxi via mike six to runway 34L'') = taxi_tokens"
  by (simp add: taxi_tokens_def char_defs tokenizer_defs)

lemma taxi_lower:
  "lower ''taxi'' = ''taxi''" "lower ''via'' = ''via''" "lower ''mike'' = ''mike''"
  "lower ''six'' = ''six''" "lower ''to'' = ''to''" "lower ''runway'' = ''runway''"
  "lower ''34'' = ''34''" "lower ''l'' = ''l''"
  by (simp_all add: char_defs)

lemma taxi_upper:
  "upper ''taxi'' = ''TAXI''" "upper ''via'' = ''VIA''" "upper ''mike'' = ''MIKE''"
  "upper ''six'' = ''SIX''" "upper ''to'' = ''TO''" "upper ''runway'' = ''RUNWAY''"
  "upper ''34'' = ''34''" "upper ''l'' = ''L''"
  by (simp_all add: char_defs)

lemma taxi_isdigit:
  "isdigit ''taxi'' = False" "isdigit ''via'' = False" "isdigit ''mike'' = False"
  "isdigit ''six'' = False" "isdigit ''to'' = False" "isdigit ''runway'' = False"
  "isdigit ''34'' = True" "isdigit ''l'' = False"
  by (simp_all add: char_defs)

lemma taxi_digit:
  "token_to_digit ''taxi'' = None" "token_to_digit ''via'' = None"
  "token_to_digit ''mike'' = None" "token_to_digit ''six'' = Some ''6''"
  "token_to_digit ''to'' = None" "token_to_digit ''runway'' = None"
  "token_to_digit ''34'' = None" "token_to_digit ''l'' = None"
  by (simp_all add: token_to_digit_def Let_def taxi_lower taxi_isdigit NUMBER_WORDS_def
      str_digit_def)

lemmas taxi_eval = taxi_tokens_def matcher_defs pattern_defs Let_def taxi_lower taxi_upper
  taxi_isdigit taxi_digit slice_def is_AZ_def is_dec_def is_space_def cp_def
  AIRLINE_ICAO_def ICAO_ALPHABET_def DECIMAL_WORDS_def

lemma taxi_split:
  "split ''china southern'' = [''china'', ''southern'']"
  "split ''air china'' = [''air'', ''china'']"
  "split ''china eastern'' = [''china'', ''eastern'']"
  by (simp_all add: is_space_def cp_def)

lemma taxi_none_0:
  "CallsignFSM_match taxi_tokens 0 = Inr None" "FlightLevelFSM_match taxi_tokens 0 = Inr None"
  "RunwayFSM_match taxi_tokens 0 = Inr None" "TaxiwayFSM_match taxi_tokens 0 = Inr None"
  "HeadingFSM_match taxi_tokens 0 = Inr None" "FrequencyFSM_match taxi_tokens 0 = Inr None"
  "QNHFSM_match taxi_tokens 0 = Inr None" "ValueFSM_match taxi_tokens 0 = Inr None"
  by (simp_all add: taxi_eval taxi_split)

lemma taxi_none_1:
  "CallsignFSM_match taxi_tokens (Suc 0) = Inr None"
  "FlightLevelFSM_match taxi_tokens (Suc 0) = Inr None"
  "RunwayFSM_match taxi_tokens (Suc 0) = Inr None"
  "TaxiwayFSM_match taxi_tokens (Suc 0) = Inr None"
  "HeadingFSM_match taxi_tokens (Suc 0) = Inr None"
  "FrequencyFSM_match taxi_tokens (Suc 0) = Inr None"
  "QNHFSM_match taxi_tokens (Suc 0) = Inr None"
  "ValueFSM_match taxi_tokens (Suc 0) = Inr None"
  by (simp_all add: taxi_eval taxi_split)

lemma taxi_none_2:
  "CallsignFSM_match taxi_tokens 2 = Inr None"
  "FlightLevelFSM_match taxi_tokens 2 = Inr None"
  "RunwayFSM_match taxi_tokens 2 = Inr None"
  "TaxiwayFSM_match taxi_tokens 2 = Inr None"
  "HeadingFSM_match taxi_tokens 2 = Inr None"
  "FrequencyFSM_match taxi_tokens 2 = Inr None"
  "QNHFSM_match taxi_tokens 2 = Inr None"
  "ValueFSM_match taxi_tokens 2 = Inr None"
  by (simp_all add: taxi_eval taxi_split)

lemma taxi_none_3:
  "CallsignFSM_match taxi_tokens 3 = Inr None"
  "FlightLevelFSM_match taxi_tokens 3 = Inr None"
  "RunwayFSM_match taxi_tokens 3 = Inr None"
  "TaxiwayFSM_match taxi_tokens 3 = Inr None"
  "HeadingFSM_match taxi_tokens 3 = Inr None"
  "FrequencyFSM_match taxi_tokens 3 = Inr None"
  "QNHFSM_match taxi_tokens 3 = Inr None"
  "ValueFSM_match taxi_tokens 3 = Inr None"
  by (simp_all add: taxi_eval taxi_split)

lemma taxi_none_4:
  "CallsignFSM_match taxi_tokens 4 = Inr None"
  "FlightLevelFSM_match taxi_tokens 4 = Inr None"
  "RunwayFSM_match taxi_tokens 4 = Inr None"
  "TaxiwayFSM_match taxi_tokens 4 = Inr None"
  "HeadingFSM_match taxi_tokens 4 = Inr None"
  "FrequencyFSM_match taxi_tokens 4 = Inr None"
  "QNHFSM_match taxi_tokens 4 = Inr None"
  "ValueFSM_match taxi_tokens 4 = Inr None"
  by (simp_all add: taxi_eval taxi_split)

lemma taxi_none_7:
  "CallsignFSM_match taxi_tokens 7 = Inr None"
  "FlightLevelFSM_match taxi_tokens 7 = Inr None"
  "RunwayFSM_match taxi_tokens 7 = Inr None"
  "TaxiwayFSM_match taxi_tokens 7 = Inr None"
  "HeadingFSM_match taxi_tokens 7 = Inr None"
  "FrequencyFSM_match taxi_tokens 7 = Inr None"
  "QNHFSM_match taxi_tokens 7 = Inr None"
  "ValueFSM_match taxi_tokens 7 = Inr None"
  by (simp_all add: taxi_eval taxi_split)

lemma taxi_none_5:
  "CallsignFSM_match taxi_tokens 5 = Inr None"
  "FlightLevelFSM_match taxi_tokens 5 = Inr None"
  "TaxiwayFSM_match taxi_tokens 5 = Inr None"
  "HeadingFSM_match taxi_tokens 5 = Inr None"
  "FrequencyFSM_match taxi_tokens 5 = Inr None"
  "QNHFSM_match taxi_tokens 5 = Inr None"
  "ValueFSM_match taxi_tokens 5 = Inr None"
  by (simp_all add: taxi_eval taxi_split)

lemma taxi_runway_5:
  "RunwayFSM_match taxi_tokens 5 =
     Inr (Some (mk_match RUNWAY ''runway 34'' ''RWY 34'' ''runway three four'' 0.95 2))"
  by (simp add: taxi_eval RW_PREFIX_def runway_spoken_def digits_to_spoken_def isdigit_char_def
      int_char_def subscript_def NUMBER_REVERSE_def)

lemma taxi_best:
  "best_match DEFAULT_FSMS taxi_tokens 0 = None"
  "best_match DEFAULT_FSMS taxi_tokens (Suc 0) = None"
  "best_match DEFAULT_FSMS taxi_tokens 2 = None"
  "best_match DEFAULT_FSMS taxi_tokens 3 = None"
  "best_match DEFAULT_FSMS taxi_tokens 4 = None"
  "best_match DEFAULT_FSMS taxi_tokens 5 =
     Some (mk_match RUNWAY ''runway 34'' ''RWY 34'' ''runway three four'' 0.95 2)"
  "best_match DEFAULT_FSMS taxi_tokens 7 = None"
  by (simp_all add: best_match_def DEFAULT_FSMS_def taxi_none_0 taxi_none_1 taxi_none_2
      taxi_none_3 taxi_none_4 taxi_none_5 taxi_none_7 taxi_runway_5)

lemma taxi_parse_loop:
  "parse_loop DEFAULT_FSMS taxi_tokens mode (0, []) =
     Inr [''taxi'', ''via'', ''mike'', ''six'', ''to'',
          render (entity (mk_match RUNWAY ''runway 34'' ''RWY 34'' ''runway three four'' 0.95 2)) mode,
          ''l'']"
proof -
  have len: "length taxi_tokens = 8" by (simp add: taxi_tokens_def)
  have nth: "taxi_tokens ! 0 = ''taxi''" "taxi_tokens ! Suc 0 = ''via''" "taxi_tokens ! 2 = ''mike''"
    "taxi_tokens ! 3 = ''six''" "taxi_tokens ! 4 = ''to''" "taxi_tokens ! 7 = ''l''"
    by (simp_all add: taxi_tokens_def)
  have s8: "parse_loop DEFAULT_FSMS taxi_tokens mode (8, out) = Inr out" for out
    by (simp add: parse_loop.simps len)
  have s7: "parse_loop DEFAULT_FSMS taxi_tokens mode (7, out) = Inr (out @ [''l''])" for out
    by (simp add: parse_loop.simps [of _ _ _ 7] len loop_body_def taxi_best getitem_def nth s8)
  have s5: "parse_loop DEFAULT_FSMS taxi_tokens mode (5, out) =
      Inr (out @ [render (entity (mk_match RUNWAY ''runway 34'' ''RWY 34'' ''runway three four'' 0.95 2)) mode, ''l''])" for out
    by (simp add: parse_loop.simps [of _ _ _ 5] len loop_body_def taxi_best s7)
  have s4: "parse_loop DEFAULT_FSMS taxi_tokens mode (4, out) =
      Inr (out @ [''to'', render (entity (mk_match RUNWAY ''runway 34'' ''RWY 34'' ''runway three four'' 0.95 2)) mode, ''l''])" for out
    by (simp add: parse_loop.simps [of _ _ _ 4] len loop_body_def taxi_best getitem_def nth s5)
  have s3: "parse_loop DEFAULT_FSMS taxi_tokens mode (3, out) =
      Inr (out @ [''six'', ''to'', render (entity (mk_match RUNWAY ''runway 34'' ''RWY 34'' ''runway three four'' 0.95 2)) mode, ''l''])" for out
    by (simp add: parse_loop.simps [of _ _ _ 3] len loop_body_def taxi_best getitem_def nth s4)
  have s2: "parse_loop DEFAULT_FSMS taxi_tokens mode (2, out) =
      Inr (out @ [''mike'', ''six'', ''to'', render (entity (mk_match RUNWAY ''runway 34'' ''RWY 34'' ''runway three four'' 0.95 2)) mode, ''l''])" for out
    by (simp add: parse_loop.simps [of _ _ _ 2] len loop_body_def taxi_best getitem_def nth s3)
  have s1: "parse_loop DEFAULT_FSMS taxi_tokens mode (Suc 0, out) =
      Inr (out @ [''via'', ''mike'', ''six'', ''to'', render (entity (mk_match RUNWAY ''runway 34'' ''RWY 34'' ''runway three four'' 0.95 2)) mode, ''l''])" for out
    by (simp add: parse_loop.simps [of _ _ _ "Suc 0"] len loop_body_def taxi_best getitem_def nth
        s2 numeral_2_eq_2 [symmetric])
  show ?thesis
    by (simp add: parse_loop.simps [of _ _ _ 0] len loop_body_def taxi_best getitem_def nth s1)
qed

lemma taxi_parse_code:
  "parse DEFAULT_FSMS ''taxi via mike six to runway 34L'' CODE
     = Inr ''taxi via mike six to RWY 34 l''"
  by (simp add: parse_def taxi_tokenize taxi_parse_loop render_def mk_match_def)

lemma taxi_parse_spoken:
  "parse DEFAULT_FSMS ''taxi via mike six to runway 34L'' SPOKEN
     = Inr ''taxi via mike six to runway three four l''"
  by (simp add: parse_def taxi_tokenize taxi_parse_loop render_def mk_match_def)

text \<open>
  Claim C3, as stated, fails.  The tokenizer splits \<open>34L\<close> into \<open>34\<close> and \<open>l\<close>, and
  \<open>mike six\<close> follows \<open>via\<close>, not a taxiway prefix.  With the default matchers the CODE
  result is \<open>taxi via mike six to RWY 34 l\<close>, which contains neither \<open>TWY M6\<close> nor
  \<open>RWY 34L\<close>, and the SPOKEN result is \<open>taxi via mike six to runway three four l\<close>, which
  contains neither \<open>taxiway mike six\<close> nor \<open>runway three four left\<close>.
\<close>

theorem taxi_scenario_counterexample:
  "parse DEFAULT_FSMS ''taxi via mike six to runway 34L'' CODE
     = Inr ''taxi via mike six to RWY 34 l''
   \<and> \<not> contains ''taxi via mike six to RWY 34 l'' ''TWY M6''
   \<and> \<not> contains ''taxi via mike six to RWY 34 l'' ''RWY 34L''
   \<and> parse DEFAULT_FSMS ''taxi via mike six to runway 34L'' SPOKEN
     = Inr ''taxi via mike six to runway three four l''
   \<and> \<not> contains ''taxi via mike six to runway three four l'' ''taxiway mike six''
   \<and> \<not> contains ''taxi via mike six to runway three four l'' ''runway three four left''"
  using taxi_parse_code taxi_parse_spoken by simp

text \<open>
  Claim C3, amended.  For this input and the default matchers, the CODE result begins with
  the words \<open>taxi via mike six to\<close> passed through unchanged, contains \<open>RWY 34\<close> and
  no taxiway entity; the SPOKEN result begins with the same words, contains
  \<open>runway three four\<close> and no taxiway entity.
\<close>

theorem taxi_scenario_by_design:
  "\<exists>c s. parse DEFAULT_FSMS ''taxi via mike six to runway 34L'' CODE = Inr c
     \<and> parse DEFAULT_FSMS ''taxi via mike six to runway 34L'' SPOKEN = Inr s
     \<and> startswith c ''taxi via mike six to '' \<and> contains c ''RWY 34''
     \<and> \<not> contains c ''TWY''
     \<and> startswith s ''taxi via mike six to '' \<and> contains s ''runway three four''
     \<and> \<not> contains s ''taxiway''"
proof -
  have "startswith ''taxi via mike six to RWY 34 l'' ''taxi via mike six to ''
      \<and> contains ''taxi via mike six to RWY 34 l'' ''RWY 34''
      \<and> \<not> contains ''taxi via mike six to RWY 34 l'' ''TWY''"
    by simp
  moreover have "startswith ''taxi via mike six to runway three four l'' ''taxi via mike six to ''
      \<and> contains ''taxi via mike six to runway three four l'' ''runway three four''
      \<and> \<not> contains ''taxi via mike six to runway three four l'' ''taxiway''"
    by simp
  ultimately show ?thesis using taxi_parse_code taxi_parse_spoken by blast
qed

end
